theory Spec2Isabelle
  imports Main
begin

section \<open>The URL consumer of linkcheck/checker/consumer.py\<close>

text \<open>
  The class \<open>Consumer\<close> owns two fields of its own (\<open>_number\<close>, \<open>num_waited\<close>) and
  otherwise only calls collaborators whose code is not part of the file: the cache,
  the threader, the loggers, the log module, \<open>time.sleep\<close> and \<open>stderr\<close>.  The
  embedding keeps the two fields and the configuration in a record and writes every
  call to a collaborator into a trace, oldest call first.  What a collaborator
  answers, and whether a call raises, is read from an environment: each answer is a
  function of the trace so far, so every sequence of answers and every placement of
  exceptions is some environment.

  Exceptions are raised by calls: a \<open>KeyboardInterrupt\<close> that arrives between two calls
  counts as raised by the next one.  A call that raises leaves \<open>Raised\<close> in the trace in
  place of the call.  Taking and releasing the global lock never raises.

  Not embedded: \<open>config\<close>, \<open>config_append\<close>, \<open>get_country_name\<close> and the cache methods
  proxied by \<open>__getattr__\<close>.  None of them reads or writes \<open>_number\<close> or \<open>num_waited\<close>.
\<close>

subsection \<open>Data\<close>

text \<open>
  The exceptions \<open>abort\<close> tells apart: the two it catches, and any other.  A logger is
  known by its name.
\<close>

datatype exn = KeyboardInterrupt | SystemExit | OtherError

type_synonym logger = string

text \<open>The attributes of a checked URL that the consumer reads.\<close>

record url_data =
  url :: string
  valid :: bool
  cached :: bool
  caching :: bool
  warnings :: "(string \<times> string) list"

text \<open>The configuration options the consumer reads.\<close>

record config =
  cfg_threads :: int
  cfg_logger :: logger
  cfg_fileoutput :: "logger list"
  cfg_verbose :: bool
  cfg_warnings :: bool
  cfg_ignorewarnings :: "string list"

text \<open>
  One event per call: the lock, the threader's constructor, the loggers, the cache,
  the threader, \<open>linkcheck.log\<close>, \<open>time.sleep\<close>, the \<open>print_*\<close> functions on \<open>stderr\<close>.
  A call that returns a value carries it: \<open>IncomingAdd u b\<close> is \<open>incoming_add(u)\<close>
  answering \<open>b\<close>.  \<open>InProgressRemove u i\<close> is \<open>in_progress_remove(u, ignore_missing=i)\<close>.
  Times are taken as integers.
\<close>

datatype event =
    Acquire
  | Release
  | NewThreader int
  | StartOutput logger
  | EndOutput logger
  | LogFilterUrl logger url_data bool
  | IncomingAdd url_data bool
  | IncomingLen int
  | CheckedAdd url_data
  | InProgressRemove url_data bool
  | ThreaderFinished bool
  | ActiveThreads int
  | ThreaderFinish
  | StartThread url_data string
  | LogError string
  | LogWarn int
  | Sleep int
  | PrintStatus
  | PrintActive int
  | PrintLinks int
  | PrintTocheck int
  | PrintDuration int
  | PrintNewline
  | Raised exn

text \<open>
  The consumer: \<open>_number\<close>, \<open>_config\<close>, \<open>num_waited\<close> (an attribute only \<open>abort\<close> sets, and
  sets before \<open>_abort\<close> reads it), and the trace of the calls made so far.
\<close>

record consumer =
  number :: int
  config :: config
  num_waited :: int
  trace :: "event list"

text \<open>
  The environment: given the trace so far, whether the next call raises, and what the
  cache and the threader answer.  \<open>linkcheck.strformat.ascii_safe\<close> is not among the
  source files and is a parameter too.
\<close>

record env =
  raises :: "event list \<Rightarrow> exn option"
  cache_incoming_add :: "event list \<Rightarrow> url_data \<Rightarrow> bool"
  cache_incoming_len :: "event list \<Rightarrow> int"
  threader_finished :: "event list \<Rightarrow> bool"
  threader_active_threads :: "event list \<Rightarrow> int"
  ascii_safe :: "string \<Rightarrow> string"

type_synonym 'a outcome = "(exn + 'a) \<times> consumer"

subsection \<open>Calls to collaborators\<close>

definition emit :: "event \<Rightarrow> consumer \<Rightarrow> consumer" where
  "emit e s = s\<lparr>trace := trace s @ [e]\<rparr>"

text \<open>A call that returns nothing: it either raises or is written into the trace.\<close>

definition call :: "env \<Rightarrow> event \<Rightarrow> consumer \<Rightarrow> unit outcome" where
  "call env e s =
     (case raises env (trace s) of
        Some x \<Rightarrow> (Inl x, emit (Raised x) s)
      | None \<Rightarrow> (Inr (), emit e s))"

text \<open>A call that returns an answer: the answer is written into the trace with it.\<close>

definition query :: "env \<Rightarrow> (event list \<Rightarrow> 'a) \<Rightarrow> ('a \<Rightarrow> event) \<Rightarrow> consumer \<Rightarrow> 'a outcome" where
  "query env answer ev s =
     (case raises env (trace s) of
        Some x \<Rightarrow> (Inl x, emit (Raised x) s)
      | None \<Rightarrow> (Inr (answer (trace s)), emit (ev (answer (trace s))) s))"

text \<open>Sequencing: an exception of the first part skips the second.\<close>

definition seq :: "(consumer \<Rightarrow> 'a outcome) \<Rightarrow> ('a \<Rightarrow> consumer \<Rightarrow> 'b outcome) \<Rightarrow> consumer \<Rightarrow> 'b outcome" where
  "seq m f s = (case m s of (Inl x, s') \<Rightarrow> (Inl x, s') | (Inr a, s') \<Rightarrow> f a s')"

text \<open>A \<open>for\<close> loop over a list whose body returns nothing.\<close>

fun for_each :: "('a \<Rightarrow> consumer \<Rightarrow> unit outcome) \<Rightarrow> 'a list \<Rightarrow> consumer \<Rightarrow> unit outcome" where
  "for_each f [] s = (Inr (), s)"
| "for_each f (x # xs) s =
     (case f x s of (Inl e, s') \<Rightarrow> (Inl e, s') | (Inr _, s') \<Rightarrow> for_each f xs s')"

text \<open>
  Modelled from the spec: \<open>linkcheck.decorators.synchronized\<close> is not among the source
  files.  The spec says that a synchronized operation "acquires one process-wide lock
  for its full duration, with guaranteed release on every exit path (including thrown
  errors)": the lock is taken before the body runs and released after it, whatever
  the body's outcome.
\<close>

definition synchronized :: "(consumer \<Rightarrow> 'a outcome) \<Rightarrow> consumer \<Rightarrow> 'a outcome" where
  "synchronized f s = (case f (emit Acquire s) of (r, s') \<Rightarrow> (r, emit Release s'))"

subsection \<open>Logging fan-out\<close>

text \<open>\<open>Consumer.start_log_output\<close>\<close>

definition start_log_output :: "env \<Rightarrow> consumer \<Rightarrow> unit outcome" where
  "start_log_output env =
     synchronized (\<lambda>s.
       seq (call env (StartOutput (cfg_logger (config s))))
         (\<lambda>_. for_each (\<lambda>logger. call env (StartOutput logger)) (cfg_fileoutput (config s))) s)"

text \<open>\<open>Consumer.end_log_output\<close>\<close>

definition end_log_output :: "env \<Rightarrow> consumer \<Rightarrow> unit outcome" where
  "end_log_output env =
     synchronized (\<lambda>s.
       seq (call env (EndOutput (cfg_logger (config s))))
         (\<lambda>_. for_each (\<lambda>logger. call env (EndOutput logger)) (cfg_fileoutput (config s))) s)"

text \<open>The loop of \<open>_log_url\<close> over the item's warnings, with its \<open>break\<close>.\<close>

fun has_warnings :: "string list \<Rightarrow> (string \<times> string) list \<Rightarrow> bool" where
  "has_warnings ign [] = False"
| "has_warnings ign ((tag, content) # ws) =
     (if tag \<notin> set ign then True else has_warnings ign ws)"

definition do_print :: "config \<Rightarrow> url_data \<Rightarrow> bool" where
  "do_print c u =
     (cfg_verbose c \<or> \<not> valid u \<or>
      (has_warnings (cfg_ignorewarnings c) (warnings u) \<and> cfg_warnings c))"

text \<open>\<open>Consumer._log_url\<close>: the counter is incremented before any logger is called.\<close>

definition log_url_inner :: "env \<Rightarrow> url_data \<Rightarrow> consumer \<Rightarrow> unit outcome" where
  "log_url_inner env u s0 =
     (let s = s0\<lparr>number := number s0 + 1\<rparr>;
          dp = do_print (config s) u
      in seq (call env (LogFilterUrl (cfg_logger (config s)) u dp))
           (\<lambda>_. for_each (\<lambda>log. call env (LogFilterUrl log u dp)) (cfg_fileoutput (config s))) s)"

text \<open>\<open>Consumer.log_url\<close>\<close>

definition log_url :: "env \<Rightarrow> url_data \<Rightarrow> consumer \<Rightarrow> unit outcome" where
  "log_url env u = synchronized (log_url_inner env u)"

subsection \<open>URL lifecycle\<close>


text \<open>\<open>Consumer.append_url\<close>\<close>

definition append_url :: "env \<Rightarrow> url_data \<Rightarrow> consumer \<Rightarrow> unit outcome" where
  "append_url env u =
     synchronized
       (seq (query env (\<lambda>h. cache_incoming_add env h u) (IncomingAdd u))
          (\<lambda>added. if \<not> added then log_url_inner env u else (\<lambda>s. (Inr (), s))))"

text \<open>\<open>Consumer.check_url\<close>, not synchronized.\<close>

definition check_url :: "env \<Rightarrow> url_data \<Rightarrow> string \<Rightarrow> consumer \<Rightarrow> unit outcome" where
  "check_url env u name = call env (StartThread u (ascii_safe env name))"

text \<open>\<open>Consumer.checked\<close>\<close>

definition checked :: "env \<Rightarrow> url_data \<Rightarrow> consumer \<Rightarrow> unit outcome" where
  "checked env u =
     synchronized
       (seq (log_url_inner env u)
          (\<lambda>_. if caching u \<and> \<not> cached u then call env (CheckedAdd u)
                else call env (InProgressRemove u False)))"

text \<open>\<open>Consumer.interrupted\<close>\<close>

definition interrupted :: "env \<Rightarrow> url_data \<Rightarrow> consumer \<Rightarrow> unit outcome" where
  "interrupted env u = synchronized (call env (InProgressRemove u True))"

text \<open>\<open>Consumer.finished\<close>: \<open>and\<close> asks the cache only when the threader is finished.\<close>

definition finished :: "env \<Rightarrow> consumer \<Rightarrow> bool outcome" where
  "finished env =
     synchronized
       (seq (query env (threader_finished env) ThreaderFinished)
          (\<lambda>fin. if fin
                  then seq (query env (cache_incoming_len env) IncomingLen)
                         (\<lambda>n s. (Inr (n = 0), s))
                  else (\<lambda>s. (Inr False, s))))"

text \<open>\<open>Consumer.finish\<close>\<close>

definition finish :: "env \<Rightarrow> consumer \<Rightarrow> unit outcome" where
  "finish env = synchronized (call env ThreaderFinish)"

text \<open>\<open>Consumer.no_more_threads\<close>\<close>

definition no_more_threads :: "env \<Rightarrow> consumer \<Rightarrow> bool outcome" where
  "no_more_threads env = synchronized (query env (threader_finished env) ThreaderFinished)"

text \<open>\<open>Consumer.active_threads\<close>\<close>

definition active_threads :: "env \<Rightarrow> consumer \<Rightarrow> int outcome" where
  "active_threads env = synchronized (query env (threader_active_threads env) ActiveThreads)"

text \<open>\<open>Consumer.print_status\<close>\<close>

definition print_status :: "env \<Rightarrow> int \<Rightarrow> int \<Rightarrow> consumer \<Rightarrow> unit outcome" where
  "print_status env curtime start_time =
     synchronized
       (seq (call env PrintStatus) (\<lambda>_.
        seq (query env (threader_active_threads env) ActiveThreads) (\<lambda>active.
        seq (call env (PrintActive active)) (\<lambda>_.
        seq (\<lambda>s. call env (PrintLinks (number s)) s) (\<lambda>_.
        seq (query env (cache_incoming_len env) IncomingLen) (\<lambda>tocheck.
        seq (call env (PrintTocheck tocheck)) (\<lambda>_.
        seq (call env (PrintDuration (curtime - start_time))) (\<lambda>_.
        call env PrintNewline))))))))"

subsection \<open>Abort\<close>

text \<open>
  \<open>Consumer._abort\<close>: the \<open>while\<close> loop as recursion.  Every round that is not the
  timeout round increments \<open>num_waited\<close>, so the recursion ends.
\<close>

function abort_inner :: "env \<Rightarrow> consumer \<Rightarrow> unit outcome" where
  "abort_inner env s =
     (case no_more_threads env s of
        (Inl x, s1) \<Rightarrow> (Inl x, s1)
      | (Inr True, s1) \<Rightarrow> end_log_output env s1
      | (Inr False, s1) \<Rightarrow>
          if num_waited s1 > 30
          then seq (call env (LogError ''Thread wait timeout'')) (\<lambda>_. end_log_output env) s1
          else (case active_threads env s1 of
                  (Inl x, s2) \<Rightarrow> (Inl x, s2)
                | (Inr num, s2) \<Rightarrow>
                    (case call env (LogWarn num) s2 of
                       (Inl x, s3) \<Rightarrow> (Inl x, s3)
                     | (Inr _, s3) \<Rightarrow>
                         (case finish env s3 of
                            (Inl x, s4) \<Rightarrow> (Inl x, s4)
                          | (Inr _, s4) \<Rightarrow>
                              (case call env (Sleep 2) (s4\<lparr>num_waited := num_waited s4 + 1\<rparr>) of
                                 (Inl x, s5) \<Rightarrow> (Inl x, s5)
                               | (Inr _, s5) \<Rightarrow> abort_inner env s5)))))"
  by pat_completeness auto
termination
  apply (relation "measure (\<lambda>(env, s). nat (31 - num_waited s))")
   apply simp
  apply (auto simp: no_more_threads_def active_threads_def finish_def synchronized_def
        query_def call_def emit_def split: option.splits prod.splits)
  done

declare abort_inner.simps [simp del]

text \<open>
  One waiting round of that loop, from the \<open>active_threads()\<close> call to the sleep, named
  for the proofs: \<open>abort_inner\<close> unfolds to it (lemma \<open>abort_inner_unfold\<close>).
\<close>

definition wait_round :: "env \<Rightarrow> consumer \<Rightarrow> unit outcome" where
  "wait_round env s1 =
     (case active_threads env s1 of
        (Inl x, s2) \<Rightarrow> (Inl x, s2)
      | (Inr num, s2) \<Rightarrow>
          (case call env (LogWarn num) s2 of
             (Inl x, s3) \<Rightarrow> (Inl x, s3)
           | (Inr _, s3) \<Rightarrow>
               (case finish env s3 of
                  (Inl x, s4) \<Rightarrow> (Inl x, s4)
                | (Inr _, s4) \<Rightarrow> call env (Sleep 2) (s4\<lparr>num_waited := num_waited s4 + 1\<rparr>))))"

text \<open>
  The \<open>while True\<close> loop of \<open>Consumer.abort\<close>: a \<open>KeyboardInterrupt\<close> or \<open>SystemExit\<close>
  out of \<open>_abort\<close> starts \<open>_abort\<close> again, any other exception leaves \<open>abort\<close>.  The
  loop need not end, so its result is an option: \<open>None\<close> is an \<open>abort\<close> that never
  returns.
\<close>

partial_function (option) abort_retry :: "env \<Rightarrow> consumer \<Rightarrow> unit outcome option" where
  "abort_retry env s =
     (case abort_inner env s of
        (Inl KeyboardInterrupt, s') \<Rightarrow> abort_retry env s'
      | (Inl SystemExit, s') \<Rightarrow> abort_retry env s'
      | (Inl OtherError, s') \<Rightarrow> Some (Inl OtherError, s')
      | (Inr _, s') \<Rightarrow> Some (Inr (), s'))"

text \<open>\<open>Consumer.abort\<close>: \<open>num_waited\<close> is reset once, before the first attempt.\<close>

definition abort :: "env \<Rightarrow> consumer \<Rightarrow> unit outcome option" where
  "abort env s = abort_retry env (s\<lparr>num_waited := 0\<rparr>)"

subsection \<open>Sequences of operations\<close>

datatype op =
    OpAppendUrl url_data
  | OpCheckUrl url_data string
  | OpChecked url_data
  | OpInterrupted url_data
  | OpFinished
  | OpFinish
  | OpNoMoreThreads
  | OpAbort
  | OpPrintStatus int int
  | OpStartLogOutput
  | OpLogUrl url_data
  | OpEndLogOutput
  | OpActiveThreads

text \<open>
  The consumer after one operation has returned or raised; \<open>None\<close> when the operation
  is an \<open>abort\<close> that never returns.  An operation that raised leaves the consumer as
  it was when the exception left it, and the caller may go on with the next one.
\<close>

fun perform :: "env \<Rightarrow> op \<Rightarrow> consumer \<Rightarrow> consumer option" where
  "perform env (OpAppendUrl u) s = Some (snd (append_url env u s))"
| "perform env (OpCheckUrl u name) s = Some (snd (check_url env u name s))"
| "perform env (OpChecked u) s = Some (snd (checked env u s))"
| "perform env (OpInterrupted u) s = Some (snd (interrupted env u s))"
| "perform env OpFinished s = Some (snd (finished env s))"
| "perform env OpFinish s = Some (snd (finish env s))"
| "perform env OpNoMoreThreads s = Some (snd (no_more_threads env s))"
| "perform env OpAbort s = map_option snd (abort env s)"
| "perform env (OpPrintStatus curtime start_time) s = Some (snd (print_status env curtime start_time s))"
| "perform env OpStartLogOutput s = Some (snd (start_log_output env s))"
| "perform env (OpLogUrl u) s = Some (snd (log_url env u s))"
| "perform env OpEndLogOutput s = Some (snd (end_log_output env s))"
| "perform env OpActiveThreads s = Some (snd (active_threads env s))"

fun run :: "env \<Rightarrow> op list \<Rightarrow> consumer \<Rightarrow> consumer option" where
  "run env [] s = Some s"
| "run env (x # xs) s = (case perform env x s of None \<Rightarrow> None | Some s' \<Rightarrow> run env xs s')"

subsection \<open>Reading a trace\<close>

text \<open>The calls an operation made: what it added to the trace.\<close>

definition new_events :: "consumer \<Rightarrow> consumer \<Rightarrow> event list" where
  "new_events s s' = drop (length (trace s)) (trace s')"

text \<open>No collaborator call raises once the trace is \<open>t\<close>, however it goes on.\<close>

definition quiet_from :: "env \<Rightarrow> event list \<Rightarrow> bool" where
  "quiet_from env t = (\<forall>h. raises env (t @ h) = None)"

fun cache_mutation :: "event \<Rightarrow> bool" where
  "cache_mutation (CheckedAdd u) = True"
| "cache_mutation (InProgressRemove u i) = True"
| "cache_mutation (IncomingAdd u b) = True"
| "cache_mutation e = False"

fun end_of_output :: "event \<Rightarrow> bool" where
  "end_of_output (EndOutput l) = True"
| "end_of_output e = False"

text \<open>The sinks in the order the fan-out visits them: the primary logger first.\<close>

definition sinks :: "config \<Rightarrow> logger list" where
  "sinks c = cfg_logger c # cfg_fileoutput c"

text \<open>
  The calls that log one item: \<open>log_filter_url(item, do_print)\<close> on the primary logger
  and then on each file output, in list order.
\<close>

definition log_calls :: "config \<Rightarrow> url_data \<Rightarrow> event list" where
  "log_calls c u = map (\<lambda>l. LogFilterUrl l u (do_print c u)) (cfg_logger c # cfg_fileoutput c)"

text \<open>An admission that the cache refused: \<open>incoming_add\<close> answered false.\<close>

fun refused :: "event \<Rightarrow> bool" where
  "refused (IncomingAdd u b) = (\<not> b)"
| "refused e = False"

text \<open>
  \<open>advances s s' k\<close>: from \<open>s\<close> to \<open>s'\<close> the trace only grew, the configuration stayed,
  the counter rose by \<open>k\<close> and the cache refused no admission.
\<close>

definition advances :: "consumer \<Rightarrow> consumer \<Rightarrow> int \<Rightarrow> bool" where
  "advances s s' k =
     (\<exists>evs. trace s' = trace s @ evs \<and> config s' = config s \<and>
            number s' = number s + k \<and> filter refused evs = [])"

text \<open>
  \<open>progress s s' k m\<close>: the same with \<open>m\<close> refused admissions in between, each of which
  raised the counter by one more.
\<close>

definition progress :: "consumer \<Rightarrow> consumer \<Rightarrow> int \<Rightarrow> nat \<Rightarrow> bool" where
  "progress s s' k m =
     (\<exists>evs. trace s' = trace s @ evs \<and> config s' = config s \<and>
            number s' = number s + k + int m \<and> length (filter refused evs) = m)"

fun append_url_call :: "op \<Rightarrow> bool" where
  "append_url_call (OpAppendUrl u) = True"
| "append_url_call x = False"

text \<open>The calls of one complete \<open>end_log_output()\<close>.\<close>

definition end_events :: "config \<Rightarrow> event list" where
  "end_events c = [Acquire] @ map EndOutput (sinks c) @ [Release]"

text \<open>The calls of one waiting round of \<open>_abort\<close> that saw \<open>n\<close> active threads.\<close>

definition round_events :: "int \<Rightarrow> event list" where
  "round_events n =
     [Acquire, ActiveThreads n, Release, LogWarn n, Acquire, ThreaderFinish, Release, Sleep 2]"

text \<open>
  Counting in the trace of an \<open>abort()\<close>: \<open>iterations\<close> is how often the loop condition
  \<open>not self.no_more_threads()\<close> held, that is how often the loop body was entered;
  \<open>retries\<close> is how often the threader was asked to finish; \<open>timeouts\<close> is how often
  the timeout diagnostic was written.
\<close>

definition iterations :: "event list \<Rightarrow> nat" where
  "iterations t = count_list t (ThreaderFinished False)"

definition retries :: "event list \<Rightarrow> nat" where
  "retries t = count_list t ThreaderFinish"

definition timeouts :: "event list \<Rightarrow> nat" where
  "timeouts t = count_list t (LogError ''Thread wait timeout'')"

text \<open>Operations that log their item whatever the cache answers, and the two kinds of them.\<close>

fun logs_item :: "op \<Rightarrow> bool" where
  "logs_item (OpChecked u) = True"
| "logs_item (OpLogUrl u) = True"
| "logs_item x = False"

fun checked_call :: "op \<Rightarrow> bool" where
  "checked_call (OpChecked u) = True"
| "checked_call x = False"

fun log_url_call :: "op \<Rightarrow> bool" where
  "log_url_call (OpLogUrl u) = True"
| "log_url_call x = False"

subsection \<open>Example inputs\<close>

text \<open>An environment in which nothing raises, nothing is queued and no thread runs.\<close>

definition idle_env :: env where
  "idle_env =
     \<lparr>raises = (\<lambda>h. None), cache_incoming_add = (\<lambda>h u. True), cache_incoming_len = (\<lambda>h. 0),
      threader_finished = (\<lambda>h. True), threader_active_threads = (\<lambda>h. 0),
      ascii_safe = (\<lambda>name. name)\<rparr>"

text \<open>A cache that admits a URL once: a second admission of the same item is refused.\<close>

definition dedup_env :: env where
  "dedup_env = idle_env\<lparr>cache_incoming_add := (\<lambda>h u. IncomingAdd u True \<notin> set h)\<rparr>"

text \<open>A threader that never finishes: three threads stay active.\<close>

definition busy_env :: env where
  "busy_env = idle_env\<lparr>threader_finished := (\<lambda>h. False), threader_active_threads := (\<lambda>h. 3)\<rparr>"

text \<open>A threader that reports unfinished threads \<open>k\<close> times and is finished from then on.\<close>

definition draining_env :: "nat \<Rightarrow> env" where
  "draining_env k = idle_env\<lparr>threader_finished := (\<lambda>h. k \<le> iterations h)\<rparr>"

text \<open>
  An environment that interrupts the first two attempts of an abort: the first call
  under the lock raises \<open>KeyboardInterrupt\<close>, the fourth call overall raises \<open>SystemExit\<close>.
\<close>

definition interrupting_env :: env where
  "interrupting_env =
     idle_env\<lparr>raises := (\<lambda>h. if h = [Acquire] then Some KeyboardInterrupt
                             else if length h = 4 then Some SystemExit else None)\<rparr>"

text \<open>The configuration of the spec's scenarios, with two file outputs.\<close>

definition example_config :: config where
  "example_config =
     \<lparr>cfg_threads = 10, cfg_logger = ''text'', cfg_fileoutput = [''html'', ''csv''],
      cfg_verbose = False, cfg_warnings = True, cfg_ignorewarnings = []\<rparr>"

definition fresh :: consumer where
  "fresh = \<lparr>number = 0, config = example_config, num_waited = 0, trace = []\<rparr>"

text \<open>Item A: valid, one warning tagged \<open>slow\<close>.  Item B: valid, no warning.\<close>

definition item_A :: url_data where
  "item_A = \<lparr>url = ''http://a/'', valid = True, cached = False, caching = True,
             warnings = [(''slow'', ''took long'')]\<rparr>"

definition item_B :: url_data where
  "item_B = \<lparr>url = ''http://b/'', valid = True, cached = False, caching = True, warnings = []\<rparr>"

section \<open>Properties\<close>

subsection \<open>Single calls\<close>

lemma trace_emit [simp]: "trace (emit e s) = trace s @ [e]"
  and number_emit [simp]: "number (emit e s) = number s"
  and config_emit [simp]: "config (emit e s) = config s"
  and num_waited_emit [simp]: "num_waited (emit e s) = num_waited s"
  by (simp_all add: emit_def)

lemma new_events_append: "trace s' = trace s @ evs \<Longrightarrow> new_events s s' = evs"
  by (simp add: new_events_def)

lemma call_Inr: "call env e s = (Inr r, s') \<longleftrightarrow> raises env (trace s) = None \<and> s' = emit e s"
  by (auto simp: call_def split: option.splits)

lemma call_Inl:
  "call env e s = (Inl x, s') \<longleftrightarrow> raises env (trace s) = Some x \<and> s' = emit (Raised x) s"
  by (auto simp: call_def split: option.splits)

lemma query_Inr:
  "query env a ev s = (Inr r, s') \<longleftrightarrow>
     raises env (trace s) = None \<and> r = a (trace s) \<and> s' = emit (ev (a (trace s))) s"
  by (auto simp: query_def split: option.splits)

lemma query_Inl:
  "query env a ev s = (Inl x, s') \<longleftrightarrow> raises env (trace s) = Some x \<and> s' = emit (Raised x) s"
  by (auto simp: query_def split: option.splits)

lemma seq_Inr: "seq m f s = (Inr r, s') \<longleftrightarrow> (\<exists>a s1. m s = (Inr a, s1) \<and> f a s1 = (Inr r, s'))"
  by (auto simp: seq_def split: prod.splits sum.splits)

lemma seq_Inl:
  "seq m f s = (Inl x, s') \<longleftrightarrow>
     m s = (Inl x, s') \<or> (\<exists>a s1. m s = (Inr a, s1) \<and> f a s1 = (Inl x, s'))"
  by (auto simp: seq_def split: prod.splits sum.splits)

lemma synchronized_eq:
  "synchronized f s = (r, s') \<longleftrightarrow> (\<exists>s1. f (emit Acquire s) = (r, s1) \<and> s' = emit Release s1)"
  by (auto simp: synchronized_def split: prod.splits)

subsection \<open>The fan-out loops\<close>

lemma for_each_call_Inr:
  "for_each (\<lambda>l. call env (f l)) ls s = (Inr r, s') \<Longrightarrow> s' = s\<lparr>trace := trace s @ map f ls\<rparr>"
proof (induction ls arbitrary: s)
  case Nil
  then show ?case by simp
next
  case (Cons l ls)
  from Cons.prems obtain s1 where c: "call env (f l) s = (Inr (), s1)"
    and rest: "for_each (\<lambda>l. call env (f l)) ls s1 = (Inr r, s')"
    by (auto split: prod.splits sum.splits)
  from c have "s1 = emit (f l) s" by (simp add: call_Inr)
  with Cons.IH[OF rest] show ?case by (simp add: emit_def)
qed

lemma quiet_from_now: "quiet_from env t \<Longrightarrow> raises env t = None"
  using quiet_from_def[of env t] by (metis append_Nil2)

lemma quiet_from_append: "quiet_from env t \<Longrightarrow> quiet_from env (t @ evs)"
  by (simp add: quiet_from_def)

lemma quiet_from_later: "quiet_from env t \<Longrightarrow> t' = t @ evs \<Longrightarrow> quiet_from env t'"
  by (simp add: quiet_from_append)

lemma call_quiet: "quiet_from env (trace s) \<Longrightarrow> call env e s = (Inr (), emit e s)"
  by (simp add: call_def quiet_from_now)

lemma query_quiet:
  "quiet_from env (trace s) \<Longrightarrow>
   query env a ev s = (Inr (a (trace s)), emit (ev (a (trace s))) s)"
  by (simp add: query_def quiet_from_now)

lemma for_each_call_quiet:
  "quiet_from env (trace s) \<Longrightarrow>
   for_each (\<lambda>l. call env (f l)) ls s = (Inr (), s\<lparr>trace := trace s @ map f ls\<rparr>)"
proof (induction ls arbitrary: s)
  case Nil
  then show ?case by simp
next
  case (Cons l ls)
  from Cons.prems have "quiet_from env (trace (emit (f l) s))"
    by (simp add: quiet_from_append)
  from Cons.IH[OF this] Cons.prems show ?case
    by (simp add: call_quiet emit_def)
qed

lemma fanout_for_each:
  "seq (call env (f (cfg_logger c))) (\<lambda>_. for_each (\<lambda>l. call env (f l)) (cfg_fileoutput c)) s =
   for_each (\<lambda>l. call env (f l)) (sinks c) s"
  by (simp add: seq_def sinks_def)

lemma has_warnings_iff:
  "has_warnings ign ws \<longleftrightarrow> (\<exists>w \<in> set ws. fst w \<notin> set ign)"
  by (induction ign ws rule: has_warnings.induct) auto

lemma log_url_inner_for_each:
  "log_url_inner env u s =
   for_each (\<lambda>l. call env (LogFilterUrl l u (do_print (config s) u))) (sinks (config s))
     (s\<lparr>number := number s + 1\<rparr>)"
  by (simp add: log_url_inner_def Let_def seq_def sinks_def split: prod.splits sum.splits)

lemma log_url_inner_Inr:
  assumes "log_url_inner env u s = (Inr r, s')"
  shows "s' = s\<lparr>number := number s + 1,
                 trace := trace s @ map (\<lambda>l. LogFilterUrl l u (do_print (config s) u)) (sinks (config s))\<rparr>"
  using for_each_call_Inr[of env "\<lambda>l. LogFilterUrl l u (do_print (config s) u)"
      "sinks (config s)" "s\<lparr>number := number s + 1\<rparr>" r s'] assms
  unfolding log_url_inner_for_each by simp


lemma call_events:
  "call env e s = (r, s') \<Longrightarrow> \<exists>e'. s' = emit e' s \<and> (e' = e \<or> e' \<in> range Raised)"
  by (auto simp: call_def split: option.splits)

lemma for_each_call_events:
  "for_each (\<lambda>l. call env (f l)) ls s = (r, s') \<Longrightarrow>
   \<exists>evs. s' = s\<lparr>trace := trace s @ evs\<rparr> \<and> set evs \<subseteq> f ` set ls \<union> range Raised"
proof (induction ls arbitrary: s)
  case Nil
  then have "s' = s\<lparr>trace := trace s @ []\<rparr>" by simp
  then show ?case by (intro exI[of _ "[]"]) simp
next
  case (Cons l ls)
  obtain r1 s1 where c: "call env (f l) s = (r1, s1)" by (cases "call env (f l) s")
  from call_events[OF c] obtain e' where s1: "s1 = emit e' s"
    and e': "e' = f l \<or> e' \<in> range Raised" by blast
  show ?case
  proof (cases r1)
    case (Inl x)
    with Cons.prems c have "s' = s1" by simp
    with s1 have "s' = s\<lparr>trace := trace s @ [e']\<rparr>" by (simp add: emit_def)
    moreover from e' have "set [e'] \<subseteq> f ` set (l # ls) \<union> range Raised" by auto
    ultimately show ?thesis by blast
  next
    case (Inr a)
    with Cons.prems c have "for_each (\<lambda>l. call env (f l)) ls s1 = (r, s')" by simp
    from Cons.IH[OF this] obtain evs where "s' = s1\<lparr>trace := trace s1 @ evs\<rparr>"
      and evs: "set evs \<subseteq> f ` set ls \<union> range Raised" by blast
    with s1 have "s' = s\<lparr>trace := trace s @ (e' # evs)\<rparr>" by (simp add: emit_def)
    moreover from e' evs have "set (e' # evs) \<subseteq> f ` set (l # ls) \<union> range Raised" by auto
    ultimately show ?thesis by blast
  qed
qed

lemma log_url_inner_events:
  assumes "log_url_inner env u s = (r, s')"
  shows "\<exists>evs. s' = s\<lparr>number := number s + 1, trace := trace s @ evs\<rparr> \<and>
               filter cache_mutation evs = []"
proof -
  from assms for_each_call_events[of env "\<lambda>l. LogFilterUrl l u (do_print (config s) u)"
      "sinks (config s)" "s\<lparr>number := number s + 1\<rparr>" r s']
  obtain evs where s': "s' = s\<lparr>number := number s + 1, trace := trace s @ evs\<rparr>"
    and evs: "set evs \<subseteq> (\<lambda>l. LogFilterUrl l u (do_print (config s) u)) ` set (sinks (config s))
                \<union> range Raised"
    unfolding log_url_inner_for_each by auto
  from evs have "filter cache_mutation evs = []"
    by (auto simp: filter_empty_conv)
  with s' show ?thesis by blast
qed

text \<open>
  When the fan-out returns, and what it has done when it does not: it returns exactly
  when none of its calls raises, and in any case it has served the sinks in list order
  up to the first call that raised.
\<close>

lemma all_less_Suc_split: "(\<forall>j<Suc n. P j) \<longleftrightarrow> P 0 \<and> (\<forall>j<n. P (Suc j))"
  by (auto simp: less_Suc_eq_0_disj)

lemma for_each_call_returns_iff:
  "fst (for_each (\<lambda>l. call env (f l)) ls s) = Inr () \<longleftrightarrow>
     (\<forall>j<length ls. raises env (trace s @ take j (map f ls)) = None)"
proof (induction ls arbitrary: s)
  case Nil
  then show ?case by simp
next
  case (Cons l ls)
  show ?case
  proof (cases "raises env (trace s)")
    case (Some x)
    then have "call env (f l) s = (Inl x, emit (Raised x) s)"
      by (simp add: call_def)
    then have "fst (for_each (\<lambda>l. call env (f l)) (l # ls) s) = Inl x"
      by simp
    with Some show ?thesis
      by (simp add: all_less_Suc_split)
  next
    case None
    then have "call env (f l) s = (Inr (), emit (f l) s)"
      by (simp add: call_def)
    then have "for_each (\<lambda>l. call env (f l)) (l # ls) s =
               for_each (\<lambda>l. call env (f l)) ls (emit (f l) s)"
      by simp
    with Cons.IH[of "emit (f l) s"] None show ?thesis
      by (simp add: all_less_Suc_split)
  qed
qed

lemma for_each_call_prefix:
  "for_each (\<lambda>l. call env (f l)) ls s = (r, s') \<Longrightarrow>
   \<exists>i\<le>length ls. s' = s\<lparr>trace := trace s @ take i (map f ls) @
                                 (case r of Inl x \<Rightarrow> [Raised x] | Inr _ \<Rightarrow> [])\<rparr>"
proof (induction ls arbitrary: s)
  case Nil
  then have "s' = s\<lparr>trace := trace s @ take 0 (map f []) @ []\<rparr>" "r = Inr ()" by simp_all
  then show ?case by (intro exI[of _ 0]) simp
next
  case (Cons l ls)
  show ?case
  proof (cases "raises env (trace s)")
    case (Some x)
    then have "call env (f l) s = (Inl x, emit (Raised x) s)"
      by (simp add: call_def)
    with Cons.prems have "r = Inl x" "s' = emit (Raised x) s"
      by simp_all
    then show ?thesis by (intro exI[of _ 0]) (simp add: emit_def)
  next
    case None
    then have "call env (f l) s = (Inr (), emit (f l) s)"
      by (simp add: call_def)
    with Cons.prems have "for_each (\<lambda>l. call env (f l)) ls (emit (f l) s) = (r, s')"
      by simp
    from Cons.IH[OF this] obtain i where "i \<le> length ls"
      and "s' = (emit (f l) s)\<lparr>trace := trace (emit (f l) s) @ take i (map f ls) @
                                 (case r of Inl x \<Rightarrow> [Raised x] | Inr _ \<Rightarrow> [])\<rparr>"
      by blast
    then show ?thesis by (intro exI[of _ "Suc i"]) (simp add: emit_def)
  qed
qed

lemma log_calls_sinks:
  "log_calls c u = map (\<lambda>l. LogFilterUrl l u (do_print c u)) (sinks c)"
  by (simp add: log_calls_def sinks_def)

lemma log_url_inner_returns_iff:
  "fst (log_url_inner env u s) = Inr () \<longleftrightarrow>
     (\<forall>j<length (log_calls (config s) u).
        raises env (trace s @ take j (log_calls (config s) u)) = None)"
  using for_each_call_returns_iff[of env "\<lambda>l. LogFilterUrl l u (do_print (config s) u)"
      "sinks (config s)" "s\<lparr>number := number s + 1\<rparr>"]
  by (simp add: log_url_inner_for_each log_calls_sinks)

lemma log_url_inner_returned:
  "fst (log_url_inner env u s) = Inr () \<Longrightarrow>
   snd (log_url_inner env u s) =
     s\<lparr>number := number s + 1, trace := trace s @ log_calls (config s) u\<rparr>"
  using log_url_inner_Inr[of env u s "()" "snd (log_url_inner env u s)"]
  by (cases "log_url_inner env u s") (simp add: log_calls_sinks)

lemma log_url_inner_prefix:
  "\<exists>i\<le>length (log_calls (config s) u).
     snd (log_url_inner env u s) =
       s\<lparr>number := number s + 1,
         trace := trace s @ take i (log_calls (config s) u) @
           (case fst (log_url_inner env u s) of Inl x \<Rightarrow> [Raised x] | Inr _ \<Rightarrow> [])\<rparr>"
  using for_each_call_prefix[of env "\<lambda>l. LogFilterUrl l u (do_print (config s) u)"
      "sinks (config s)" "s\<lparr>number := number s + 1\<rparr>"
      "fst (log_url_inner env u s)" "snd (log_url_inner env u s)"]
  by (simp add: log_url_inner_for_each log_calls_sinks)

subsection \<open>Counter and trace across an operation\<close>

lemma advances_refl: "advances s s 0"
  by (simp add: advances_def)

lemma advances_trans: "advances s s1 j \<Longrightarrow> advances s1 s2 k \<Longrightarrow> advances s s2 (j + k)"
  by (auto simp: advances_def)

lemma advances_emit: "\<not> refused e \<Longrightarrow> advances s (emit e s) 0"
  by (simp add: advances_def)

lemma advances_num_waited: "advances s (s\<lparr>num_waited := n\<rparr>) 0"
  by (simp add: advances_def)

lemma advances_call: "\<not> refused e \<Longrightarrow> advances s (snd (call env e s)) 0"
  by (simp add: call_def advances_emit split: option.splits)

lemma advances_query: "(\<And>a. \<not> refused (ev a)) \<Longrightarrow> advances s (snd (query env ans ev s)) 0"
  by (simp add: query_def advances_emit split: option.splits)

lemma advances_seq:
  assumes "advances s (snd (m s)) k" and "\<And>a s1. advances s1 (snd (f a s1)) 0"
  shows "advances s (snd (seq m f s)) k"
proof (cases "m s")
  case (Pair r s1)
  show ?thesis
  proof (cases r)
    case (Inl x)
    with Pair assms(1) show ?thesis by (simp add: seq_def)
  next
    case (Inr a)
    with Pair assms(1) advances_trans[OF _ assms(2)[of s1 a], of s k] show ?thesis
      by (simp add: seq_def)
  qed
qed

lemma advances_synchronized:
  assumes "\<And>s1. advances s1 (snd (f s1)) k"
  shows "advances s (snd (synchronized f s)) k"
proof -
  have "advances s (emit Acquire s) 0" by (simp add: advances_emit)
  from advances_trans[OF this assms[of "emit Acquire s"]]
  have "advances s (snd (f (emit Acquire s))) k" by simp
  from advances_trans[OF this advances_emit[of Release]]
  show ?thesis by (auto simp: synchronized_def split: prod.splits)
qed

lemma advances_for_each:
  assumes "\<And>l. \<not> refused (f l)"
  shows "advances s (snd (for_each (\<lambda>l. call env (f l)) ls s)) 0"
proof (induction ls arbitrary: s)
  case Nil
  then show ?case by (simp add: advances_refl)
next
  case (Cons l ls)
  show ?case
  proof (cases "call env (f l) s")
    case (Pair r s1)
    from advances_call[OF assms, of s env l] Pair have a: "advances s s1 0" by simp
    show ?thesis
    proof (cases r)
      case (Inl x)
      with Pair a show ?thesis by simp
    next
      case (Inr u)
      with Pair advances_trans[OF a Cons.IH[of s1]] show ?thesis by simp
    qed
  qed
qed

lemma advances_log_url_inner: "advances s (snd (log_url_inner env u s)) 1"
proof -
  have "advances s (s\<lparr>number := number s + 1\<rparr>) 1" by (simp add: advances_def)
  from advances_trans[OF this advances_for_each[of
        "\<lambda>l. LogFilterUrl l u (do_print (config s) u)" _ env "sinks (config s)"]]
  show ?thesis
    unfolding log_url_inner_for_each by simp
qed

subsection \<open>The claims about single operations\<close>

lemma filter_mutation_logs [simp]:
  "filter cache_mutation (map (\<lambda>l. LogFilterUrl l u d) ls) = []"
  by (induction ls) simp_all

lemma checked_Inr:
  assumes "checked env u s = (Inr r, s')"
  shows "s' = s\<lparr>number := number s + 1,
                trace := trace s @ [Acquire] @
                  map (\<lambda>l. LogFilterUrl l u (do_print (config s) u)) (sinks (config s)) @
                  [if caching u \<and> \<not> cached u then CheckedAdd u else InProgressRemove u False,
                   Release]\<rparr>"
proof -
  from assms obtain s1 s2 where
    l: "log_url_inner env u (emit Acquire s) = (Inr (), s1)"
    and c: "(if caching u \<and> \<not> cached u then call env (CheckedAdd u)
             else call env (InProgressRemove u False)) s1 = (Inr r, s2)"
    and s': "s' = emit Release s2"
    by (auto simp: checked_def synchronized_eq seq_Inr)
  from c have "s2 = emit (if caching u \<and> \<not> cached u then CheckedAdd u
                           else InProgressRemove u False) s1"
    by (auto simp: call_Inr split: if_splits)
  with log_url_inner_Inr[OF l] s' show ?thesis
    by (simp add: emit_def)
qed

lemma all_le_split: "(\<forall>j\<le>n. P j) \<longleftrightarrow> (\<forall>j<n. P j) \<and> P (n::nat)"
  by (auto simp: le_less)

lemma split_at_only:
  "xs @ a # ys = pre @ m # post \<Longrightarrow> P m \<Longrightarrow> \<forall>x\<in>set xs. \<not> P x \<Longrightarrow> \<forall>y\<in>set ys. \<not> P y \<Longrightarrow>
   pre = xs \<and> m = a \<and> post = ys"
proof (induction xs arbitrary: pre)
  case Nil
  then show ?case by (cases pre) auto
next
  case (Cons x xs)
  then show ?case by (cases pre) auto
qed

lemma log_calls_no_mutation: "\<forall>e\<in>set (log_calls c u). \<not> cache_mutation e"
  by (auto simp: log_calls_def)

lemma checked_one_call:
  "checked env u =
     synchronized (seq (log_url_inner env u)
       (\<lambda>_. call env (if caching u \<and> \<not> cached u then CheckedAdd u
                        else InProgressRemove u False)))"
  by (simp only: checked_def if_distrib[where f = "call env"])

text \<open>\<open>checked()\<close> returns exactly when neither a logger nor the cache raises.\<close>

lemma checked_returns_iff:
  "fst (checked env u s) = Inr () \<longleftrightarrow>
     (\<forall>j\<le>length (log_calls (config s) u).
        raises env (trace s @ Acquire # take j (log_calls (config s) u)) = None)"
proof -
  let ?a = "emit Acquire s"
  let ?s1 = "?a\<lparr>number := number ?a + 1, trace := trace ?a @ log_calls (config ?a) u\<rparr>"
  have "fst (checked env u s) = Inr () \<longleftrightarrow>
        fst (log_url_inner env u ?a) = Inr () \<and> raises env (trace ?s1) = None"
  proof (cases "fst (log_url_inner env u ?a) = Inr ()")
    case True
    from log_url_inner_returned[OF True] True
    have l: "log_url_inner env u ?a = (Inr (), ?s1)"
      by (cases "log_url_inner env u ?a") simp
    with True show ?thesis
      by (simp add: checked_one_call synchronized_def seq_def call_def split: option.splits)
  next
    case False
    then obtain x s1 where "log_url_inner env u ?a = (Inl x, s1)"
      by (cases "log_url_inner env u ?a"; cases "fst (log_url_inner env u ?a)") auto
    with False show ?thesis
      by (simp add: checked_one_call synchronized_def seq_def)
  qed
  also have "\<dots> \<longleftrightarrow> (\<forall>j\<le>length (log_calls (config s) u).
        raises env (trace s @ Acquire # take j (log_calls (config s) u)) = None)"
    by (simp add: log_url_inner_returns_iff all_le_split)
  finally show ?thesis .
qed

lemma checked_returned:
  assumes "fst (checked env u s) = Inr ()"
  shows "new_events s (snd (checked env u s)) =
           Acquire # log_calls (config s) u @
           [if caching u \<and> \<not> cached u then CheckedAdd u else InProgressRemove u False, Release]"
    and "number (snd (checked env u s)) = number s + 1"
  using checked_Inr[of env u s "()" "snd (checked env u s)"] assms
  by (cases "checked env u s"; simp add: new_events_def log_calls_sinks)+

text \<open>A \<open>checked()\<close> that raises has made no cache mutation.\<close>

lemma checked_raised_no_mutation:
  assumes "checked env u s = (Inl x, s')"
  shows "filter cache_mutation (new_events s s') = []"
proof -
  let ?m = "if caching u \<and> \<not> cached u then call env (CheckedAdd u)
            else call env (InProgressRemove u False)"
  from assms obtain s2 where s': "s' = emit Release s2"
    and body: "log_url_inner env u (emit Acquire s) = (Inl x, s2) \<or>
      (\<exists>s1. log_url_inner env u (emit Acquire s) = (Inr (), s1) \<and> ?m s1 = (Inl x, s2))"
    by (auto simp: checked_def synchronized_eq seq_Inl)
  from body have "\<exists>evs. trace s2 = trace s @ evs \<and> filter cache_mutation evs = []"
  proof
    assume "log_url_inner env u (emit Acquire s) = (Inl x, s2)"
    from log_url_inner_events[OF this] show ?thesis by auto
  next
    assume "\<exists>s1. log_url_inner env u (emit Acquire s) = (Inr (), s1) \<and> ?m s1 = (Inl x, s2)"
    then obtain s1 where l: "log_url_inner env u (emit Acquire s) = (Inr (), s1)"
      and c: "?m s1 = (Inl x, s2)" by blast
    from c have "s2 = emit (Raised x) s1" by (auto simp: call_Inl split: if_splits)
    with log_url_inner_events[OF l] show ?thesis by auto
  qed
  with s' show ?thesis
    by (auto simp: new_events_def)
qed

text \<open>
  A cache mutation among the calls of a \<open>checked()\<close> has all the log calls for the item
  before it and only the release of the lock after it.
\<close>

lemma checked_mutation_split:
  assumes "checked env u s = (r, s')" and "new_events s s' = pre @ m # post"
    and "cache_mutation m"
  shows "r = Inr () \<and> pre = Acquire # log_calls (config s) u \<and> post = [Release]"
proof -
  have r: "r = Inr ()"
  proof (cases r)
    case (Inl x)
    with assms(1) have "filter cache_mutation (new_events s s') = []"
      by (simp add: checked_raised_no_mutation)
    with assms(2,3) show ?thesis by simp
  next
    case (Inr a)
    then show ?thesis by simp
  qed
  let ?op = "if caching u \<and> \<not> cached u then CheckedAdd u else InProgressRemove u False"
  from r assms(1) checked_returned(1)[of env u s]
  have "new_events s s' = (Acquire # log_calls (config s) u) @ ?op # [Release]"
    by simp
  with assms(2) have "(Acquire # log_calls (config s) u) @ ?op # [Release] = pre @ m # post"
    by simp
  from split_at_only[OF this, of cache_mutation] assms(3) log_calls_no_mutation[of "config s" u]
  have "pre = Acquire # log_calls (config s) u \<and> post = [Release]"
    by auto
  with r show ?thesis by simp
qed

text \<open>
  C7. In \<open>_log_url\<close>, \<open>has_warnings\<close> holds exactly when some warning of the item has a
  tag outside \<open>ignorewarnings\<close>, and \<open>do_print\<close> is \<open>verbose\<close> or item invalid or
  (\<open>has_warnings\<close> and \<open>warnings\<close>).  The calls to make are \<open>log_filter_url(item,
  do_print)\<close> on the primary logger and then on each file output in list order,
  whatever the value of \<open>do_print\<close>.  \<open>_log_url\<close> returns exactly when none of these
  calls raises, and then it has made all of them and nothing else, and the counter
  has risen by one.  In any case it has made them in order up to the first that raised.
\<close>

theorem log_url_inner_forwards_to_every_sink:
  "(has_warnings (cfg_ignorewarnings (config s)) (warnings u) \<longleftrightarrow>
      (\<exists>w \<in> set (warnings u). fst w \<notin> set (cfg_ignorewarnings (config s)))) \<and>
   (do_print (config s) u \<longleftrightarrow>
      cfg_verbose (config s) \<or> \<not> valid u \<or>
      (has_warnings (cfg_ignorewarnings (config s)) (warnings u) \<and> cfg_warnings (config s))) \<and>
   log_calls (config s) u =
     map (\<lambda>l. LogFilterUrl l u (do_print (config s) u))
       (cfg_logger (config s) # cfg_fileoutput (config s)) \<and>
   (fst (log_url_inner env u s) = Inr () \<longleftrightarrow>
      (\<forall>j<length (log_calls (config s) u).
         raises env (trace s @ take j (log_calls (config s) u)) = None)) \<and>
   (fst (log_url_inner env u s) = Inr () \<longrightarrow>
      new_events s (snd (log_url_inner env u s)) = log_calls (config s) u \<and>
      number (snd (log_url_inner env u s)) = number s + 1) \<and>
   (\<exists>i\<le>length (log_calls (config s) u).
      new_events s (snd (log_url_inner env u s)) =
        take i (log_calls (config s) u) @
        (case fst (log_url_inner env u s) of Inl x \<Rightarrow> [Raised x] | Inr _ \<Rightarrow> []))"
proof (intro conjI impI)
  show "has_warnings (cfg_ignorewarnings (config s)) (warnings u) \<longleftrightarrow>
      (\<exists>w \<in> set (warnings u). fst w \<notin> set (cfg_ignorewarnings (config s)))"
    by (rule has_warnings_iff)
  show "do_print (config s) u \<longleftrightarrow>
      cfg_verbose (config s) \<or> \<not> valid u \<or>
      (has_warnings (cfg_ignorewarnings (config s)) (warnings u) \<and> cfg_warnings (config s))"
    by (simp add: do_print_def)
  show "log_calls (config s) u =
     map (\<lambda>l. LogFilterUrl l u (do_print (config s) u))
       (cfg_logger (config s) # cfg_fileoutput (config s))"
    by (simp add: log_calls_def)
  show "fst (log_url_inner env u s) = Inr () \<longleftrightarrow>
      (\<forall>j<length (log_calls (config s) u).
         raises env (trace s @ take j (log_calls (config s) u)) = None)"
    by (rule log_url_inner_returns_iff)
  show "\<exists>i\<le>length (log_calls (config s) u).
      new_events s (snd (log_url_inner env u s)) =
        take i (log_calls (config s) u) @
        (case fst (log_url_inner env u s) of Inl x \<Rightarrow> [Raised x] | Inr _ \<Rightarrow> [])"
    using log_url_inner_prefix[of s u env] by (auto simp: new_events_def)
next
  assume "fst (log_url_inner env u s) = Inr ()"
  from log_url_inner_returned[OF this]
  show "new_events s (snd (log_url_inner env u s)) = log_calls (config s) u"
    and "number (snd (log_url_inner env u s)) = number s + 1"
    by (simp_all add: new_events_def)
qed

theorem log_url_inner_forwards_to_every_sink_witness:
  "do_print (config fresh) item_A \<and>
   log_url_inner idle_env item_A fresh =
     (Inr (), fresh\<lparr>number := 1,
        trace := [LogFilterUrl ''text'' item_A True, LogFilterUrl ''html'' item_A True,
                  LogFilterUrl ''csv'' item_A True]\<rparr>) \<and>
   new_events fresh (snd (log_url_inner idle_env item_A fresh)) =
     [LogFilterUrl ''text'' item_A True, LogFilterUrl ''html'' item_A True,
      LogFilterUrl ''csv'' item_A True] \<and>
   \<not> do_print (config fresh) item_B \<and>
   log_url_inner idle_env item_B fresh =
     (Inr (), fresh\<lparr>number := 1,
        trace := [LogFilterUrl ''text'' item_B False, LogFilterUrl ''html'' item_B False,
                  LogFilterUrl ''csv'' item_B False]\<rparr>) \<and>
   new_events fresh (snd (log_url_inner idle_env item_B fresh)) =
     [LogFilterUrl ''text'' item_B False, LogFilterUrl ''html'' item_B False,
      LogFilterUrl ''csv'' item_B False]"
proof -
  have quiet: "raises idle_env h = None" for h
    by (simp add: idle_env_def)
  have a: "do_print (config fresh) item_A"
    and ca: "log_calls (config fresh) item_A =
      [LogFilterUrl ''text'' item_A True, LogFilterUrl ''html'' item_A True,
       LogFilterUrl ''csv'' item_A True]"
    by (simp_all add: log_calls_def do_print_def fresh_def example_config_def item_A_def)
  have b: "\<not> do_print (config fresh) item_B"
    and cb: "log_calls (config fresh) item_B =
      [LogFilterUrl ''text'' item_B False, LogFilterUrl ''html'' item_B False,
       LogFilterUrl ''csv'' item_B False]"
    by (simp_all add: log_calls_def do_print_def fresh_def example_config_def item_B_def)
  have ra: "log_url_inner idle_env item_A fresh =
     (Inr (), fresh\<lparr>number := 1,
        trace := [LogFilterUrl ''text'' item_A True, LogFilterUrl ''html'' item_A True,
                  LogFilterUrl ''csv'' item_A True]\<rparr>)"
    by (simp add: log_url_inner_def Let_def seq_def call_def emit_def do_print_def idle_env_def
        fresh_def example_config_def item_A_def)
  have rb: "log_url_inner idle_env item_B fresh =
     (Inr (), fresh\<lparr>number := 1,
        trace := [LogFilterUrl ''text'' item_B False, LogFilterUrl ''html'' item_B False,
                  LogFilterUrl ''csv'' item_B False]\<rparr>)"
    by (simp add: log_url_inner_def Let_def seq_def call_def emit_def do_print_def idle_env_def
        fresh_def example_config_def item_B_def)
  note ta = log_url_inner_forwards_to_every_sink[of fresh item_A idle_env]
  note tb = log_url_inner_forwards_to_every_sink[of fresh item_B idle_env]
  from ta quiet have fa: "fst (log_url_inner idle_env item_A fresh) = Inr ()"
    by blast
  from tb quiet have fb: "fst (log_url_inner idle_env item_B fresh) = Inr ()"
    by blast
  from ta fa have "new_events fresh (snd (log_url_inner idle_env item_A fresh)) =
      log_calls (config fresh) item_A"
    by blast
  moreover from tb fb have "new_events fresh (snd (log_url_inner idle_env item_B fresh)) =
      log_calls (config fresh) item_B"
    by blast
  ultimately show ?thesis
    using a b ra rb unfolding ca cb by blast
qed





text \<open>
  C4. Whenever a call of \<open>checked()\<close> makes a cache mutation, the calls it made before
  the mutation are the taking of the lock and then the whole log emission for the
  item, \<open>log_filter_url(item, do_print)\<close> on the primary logger and on each file
  output; at the mutation \<open>_log_url\<close> has returned and the counter already counts the
  item; and after the mutation the call only releases the lock.  A \<open>checked()\<close> on which
  no call raises returns, and a \<open>checked()\<close> that returns has logged the item and then
  made a cache mutation.
\<close>

theorem checked_logs_before_cache_mutation:
  "(checked env u s = (r, s') \<and> new_events s s' = pre @ m # post \<and> cache_mutation m \<longrightarrow>
      pre = Acquire # map (\<lambda>l. LogFilterUrl l u (do_print (config s) u))
                        (cfg_logger (config s) # cfg_fileoutput (config s)) \<and>
      post = [Release] \<and>
      (\<exists>s1. log_url_inner env u (emit Acquire s) = (Inr (), s1) \<and>
            trace s1 = trace s @ pre \<and> number s1 = number s + 1)) \<and>
   ((\<forall>j\<le>length (log_calls (config s) u).
       raises env (trace s @ Acquire # take j (log_calls (config s) u)) = None) \<longrightarrow>
      fst (checked env u s) = Inr ()) \<and>
   (fst (checked env u s) = Inr () \<longrightarrow>
      (\<exists>m. cache_mutation m \<and>
         new_events s (snd (checked env u s)) =
           Acquire # map (\<lambda>l. LogFilterUrl l u (do_print (config s) u))
                       (cfg_logger (config s) # cfg_fileoutput (config s)) @ [m, Release]))"
proof (intro conjI impI)
  assume a: "checked env u s = (r, s') \<and> new_events s s' = pre @ m # post \<and> cache_mutation m"
  then have split: "r = Inr ()" "pre = Acquire # log_calls (config s) u" "post = [Release]"
    using checked_mutation_split[of env u s r s' pre m post] by simp_all
  from split(2) show "pre = Acquire # map (\<lambda>l. LogFilterUrl l u (do_print (config s) u))
                        (cfg_logger (config s) # cfg_fileoutput (config s))"
    by (simp add: log_calls_def)
  from split(3) show "post = [Release]" .
  from a split(1) obtain s1 where l: "log_url_inner env u (emit Acquire s) = (Inr (), s1)"
    by (auto simp: checked_def synchronized_eq seq_Inr)
  from log_url_inner_Inr[OF l] split(2)
  have "trace s1 = trace s @ pre" "number s1 = number s + 1"
    by (simp_all add: log_calls_sinks)
  with l show "\<exists>s1. log_url_inner env u (emit Acquire s) = (Inr (), s1) \<and>
            trace s1 = trace s @ pre \<and> number s1 = number s + 1"
    by blast
next
  assume "\<forall>j\<le>length (log_calls (config s) u).
       raises env (trace s @ Acquire # take j (log_calls (config s) u)) = None"
  then show "fst (checked env u s) = Inr ()"
    by (simp add: checked_returns_iff)
next
  assume "fst (checked env u s) = Inr ()"
  from checked_returned(1)[OF this]
  show "\<exists>m. cache_mutation m \<and>
         new_events s (snd (checked env u s)) =
           Acquire # map (\<lambda>l. LogFilterUrl l u (do_print (config s) u))
                       (cfg_logger (config s) # cfg_fileoutput (config s)) @ [m, Release]"
    by (auto simp: log_calls_def)
qed

theorem checked_logs_before_cache_mutation_witness:
  "checked idle_env item_A fresh =
     (Inr (), fresh\<lparr>number := 1,
        trace := [Acquire, LogFilterUrl ''text'' item_A True, LogFilterUrl ''html'' item_A True,
                  LogFilterUrl ''csv'' item_A True, CheckedAdd item_A, Release]\<rparr>) \<and>
   (\<exists>s1. log_url_inner idle_env item_A (emit Acquire fresh) = (Inr (), s1) \<and>
      trace s1 = [Acquire, LogFilterUrl ''text'' item_A True, LogFilterUrl ''html'' item_A True,
                  LogFilterUrl ''csv'' item_A True] \<and>
      number s1 = 1) \<and>
   checked idle_env item_B fresh =
     (Inr (), fresh\<lparr>number := 1,
        trace := [Acquire, LogFilterUrl ''text'' item_B False, LogFilterUrl ''html'' item_B False,
                  LogFilterUrl ''csv'' item_B False, CheckedAdd item_B, Release]\<rparr>) \<and>
   (\<exists>s1. log_url_inner idle_env item_B (emit Acquire fresh) = (Inr (), s1) \<and>
      trace s1 = [Acquire, LogFilterUrl ''text'' item_B False, LogFilterUrl ''html'' item_B False,
                  LogFilterUrl ''csv'' item_B False] \<and>
      number s1 = 1) \<and>
   fst (checked idle_env item_A fresh) = Inr () \<and> fst (checked idle_env item_B fresh) = Inr ()"
proof -
  let ?pa = "[Acquire, LogFilterUrl ''text'' item_A True, LogFilterUrl ''html'' item_A True,
              LogFilterUrl ''csv'' item_A True]"
  let ?pb = "[Acquire, LogFilterUrl ''text'' item_B False, LogFilterUrl ''html'' item_B False,
              LogFilterUrl ''csv'' item_B False]"
  let ?sa = "fresh\<lparr>number := 1, trace := ?pa @ [CheckedAdd item_A, Release]\<rparr>"
  let ?sb = "fresh\<lparr>number := 1, trace := ?pb @ [CheckedAdd item_B, Release]\<rparr>"
  have quiet: "raises idle_env h = None" for h
    by (simp add: idle_env_def)
  have ra: "checked idle_env item_A fresh = (Inr (), ?sa)"
    by (simp add: checked_def log_url_inner_def Let_def synchronized_def seq_def call_def
        emit_def do_print_def idle_env_def fresh_def example_config_def item_A_def)
  have rb: "checked idle_env item_B fresh = (Inr (), ?sb)"
    by (simp add: checked_def log_url_inner_def Let_def synchronized_def seq_def call_def
        emit_def do_print_def idle_env_def fresh_def example_config_def item_B_def)
  have na: "new_events fresh ?sa = ?pa @ CheckedAdd item_A # [Release]"
    and nb: "new_events fresh ?sb = ?pb @ CheckedAdd item_B # [Release]"
    by (simp_all add: new_events_def fresh_def)
  have ma: "cache_mutation (CheckedAdd item_A)" and mb: "cache_mutation (CheckedAdd item_B)"
    by simp_all
  have ta: "trace fresh @ ?pa = ?pa" and tb: "trace fresh @ ?pb = ?pb"
    and n: "number fresh + 1 = 1"
    by (simp_all add: fresh_def)
  note wa = checked_logs_before_cache_mutation[of idle_env item_A fresh "Inr ()" ?sa ?pa
      "CheckedAdd item_A" "[Release]"]
  note wb = checked_logs_before_cache_mutation[of idle_env item_B fresh "Inr ()" ?sb ?pb
      "CheckedAdd item_B" "[Release]"]
  from wa ra na ma
  have "\<exists>s1. log_url_inner idle_env item_A (emit Acquire fresh) = (Inr (), s1) \<and>
      trace s1 = trace fresh @ ?pa \<and> number s1 = number fresh + 1"
    by blast
  then have la: "\<exists>s1. log_url_inner idle_env item_A (emit Acquire fresh) = (Inr (), s1) \<and>
      trace s1 = ?pa \<and> number s1 = 1"
    unfolding ta n .
  from wb rb nb mb
  have "\<exists>s1. log_url_inner idle_env item_B (emit Acquire fresh) = (Inr (), s1) \<and>
      trace s1 = trace fresh @ ?pb \<and> number s1 = number fresh + 1"
    by blast
  then have lb: "\<exists>s1. log_url_inner idle_env item_B (emit Acquire fresh) = (Inr (), s1) \<and>
      trace s1 = ?pb \<and> number s1 = 1"
    unfolding tb n .
  from wa quiet have fa: "fst (checked idle_env item_A fresh) = Inr ()"
    by blast
  from wb quiet have fb: "fst (checked idle_env item_B fresh) = Inr ()"
    by blast
  from ra rb la lb fa fb show ?thesis
    by simp
qed

text \<open>
  C5. \<open>checked()\<close> returns exactly when none of its calls raises: the log calls for the
  item and the cache call after them.  When it returns, it has made exactly one cache
  mutation, after the log calls: \<open>checked_add(item)\<close> if the item's \<open>caching\<close> flag is
  true and its \<open>cached\<close> flag false, and \<open>in_progress_remove(item)\<close> (not tolerating a
  missing entry) in every other case.
\<close>

theorem checked_cache_operation:
  "(fst (checked env u s) = Inr () \<longleftrightarrow>
      (\<forall>j\<le>length (log_calls (config s) u).
         raises env (trace s @ Acquire # take j (log_calls (config s) u)) = None)) \<and>
   (fst (checked env u s) = Inr () \<longrightarrow>
      new_events s (snd (checked env u s)) =
        Acquire # log_calls (config s) u @
        [if caching u \<and> \<not> cached u then CheckedAdd u else InProgressRemove u False,
         Release] \<and>
      filter cache_mutation (new_events s (snd (checked env u s))) =
        [if caching u \<and> \<not> cached u then CheckedAdd u else InProgressRemove u False])"
proof (intro conjI impI)
  show "fst (checked env u s) = Inr () \<longleftrightarrow>
      (\<forall>j\<le>length (log_calls (config s) u).
         raises env (trace s @ Acquire # take j (log_calls (config s) u)) = None)"
    by (rule checked_returns_iff)
next
  assume r: "fst (checked env u s) = Inr ()"
  from checked_returned(1)[OF r]
  show n: "new_events s (snd (checked env u s)) =
        Acquire # log_calls (config s) u @
        [if caching u \<and> \<not> cached u then CheckedAdd u else InProgressRemove u False,
         Release]" .
  have "filter cache_mutation (log_calls (config s) u) = []"
    using log_calls_no_mutation[of "config s" u] by (simp add: filter_empty_conv)
  then show "filter cache_mutation (new_events s (snd (checked env u s))) =
        [if caching u \<and> \<not> cached u then CheckedAdd u else InProgressRemove u False]"
    unfolding n by simp
qed

theorem checked_cache_operation_witness:
  "fst (checked idle_env item_A fresh) = Inr () \<and>
   new_events fresh (snd (checked idle_env item_A fresh)) =
     [Acquire, LogFilterUrl ''text'' item_A True, LogFilterUrl ''html'' item_A True,
      LogFilterUrl ''csv'' item_A True, CheckedAdd item_A, Release] \<and>
   filter cache_mutation (new_events fresh (snd (checked idle_env item_A fresh))) =
     [CheckedAdd item_A] \<and>
   fst (checked idle_env (item_B\<lparr>cached := True\<rparr>) fresh) = Inr () \<and>
   new_events fresh (snd (checked idle_env (item_B\<lparr>cached := True\<rparr>) fresh)) =
     [Acquire, LogFilterUrl ''text'' (item_B\<lparr>cached := True\<rparr>) False,
      LogFilterUrl ''html'' (item_B\<lparr>cached := True\<rparr>) False,
      LogFilterUrl ''csv'' (item_B\<lparr>cached := True\<rparr>) False,
      InProgressRemove (item_B\<lparr>cached := True\<rparr>) False, Release] \<and>
   filter cache_mutation (new_events fresh (snd (checked idle_env (item_B\<lparr>cached := True\<rparr>) fresh))) =
     [InProgressRemove (item_B\<lparr>cached := True\<rparr>) False] \<and>
   fst (checked idle_env (item_A\<lparr>caching := False\<rparr>) fresh) = Inr () \<and>
   filter cache_mutation (new_events fresh (snd (checked idle_env (item_A\<lparr>caching := False\<rparr>) fresh))) =
     [InProgressRemove (item_A\<lparr>caching := False\<rparr>) False]"
proof -
  have quiet: "raises idle_env h = None" for h
    by (simp add: idle_env_def)
  have ca: "log_calls (config fresh) item_A =
      [LogFilterUrl ''text'' item_A True, LogFilterUrl ''html'' item_A True,
       LogFilterUrl ''csv'' item_A True]"
    and cb: "log_calls (config fresh) (item_B\<lparr>cached := True\<rparr>) =
      [LogFilterUrl ''text'' (item_B\<lparr>cached := True\<rparr>) False,
       LogFilterUrl ''html'' (item_B\<lparr>cached := True\<rparr>) False,
       LogFilterUrl ''csv'' (item_B\<lparr>cached := True\<rparr>) False]"
    by (simp_all add: log_calls_def do_print_def fresh_def example_config_def item_A_def
        item_B_def)
  have opa: "(if caching item_A \<and> \<not> cached item_A then CheckedAdd item_A
              else InProgressRemove item_A False) = CheckedAdd item_A"
    and opb: "(if caching (item_B\<lparr>cached := True\<rparr>) \<and> \<not> cached (item_B\<lparr>cached := True\<rparr>)
               then CheckedAdd (item_B\<lparr>cached := True\<rparr>)
               else InProgressRemove (item_B\<lparr>cached := True\<rparr>) False) =
              InProgressRemove (item_B\<lparr>cached := True\<rparr>) False"
    and opc: "(if caching (item_A\<lparr>caching := False\<rparr>) \<and> \<not> cached (item_A\<lparr>caching := False\<rparr>)
               then CheckedAdd (item_A\<lparr>caching := False\<rparr>)
               else InProgressRemove (item_A\<lparr>caching := False\<rparr>) False) =
              InProgressRemove (item_A\<lparr>caching := False\<rparr>) False"
    by (simp_all add: item_A_def item_B_def)
  note wa = checked_cache_operation[of idle_env item_A fresh]
  note wb = checked_cache_operation[of idle_env "item_B\<lparr>cached := True\<rparr>" fresh]
  note wc = checked_cache_operation[of idle_env "item_A\<lparr>caching := False\<rparr>" fresh]
  from wa quiet have fa: "fst (checked idle_env item_A fresh) = Inr ()"
    by blast
  from wb quiet have fb: "fst (checked idle_env (item_B\<lparr>cached := True\<rparr>) fresh) = Inr ()"
    by blast
  from wc quiet have fc: "fst (checked idle_env (item_A\<lparr>caching := False\<rparr>) fresh) = Inr ()"
    by blast
  from wa fa
  have "new_events fresh (snd (checked idle_env item_A fresh)) =
      Acquire # log_calls (config fresh) item_A @ [CheckedAdd item_A, Release]"
    and "filter cache_mutation (new_events fresh (snd (checked idle_env item_A fresh))) =
      [CheckedAdd item_A]"
    unfolding opa by blast+
  moreover from wb fb
  have "new_events fresh (snd (checked idle_env (item_B\<lparr>cached := True\<rparr>) fresh)) =
      Acquire # log_calls (config fresh) (item_B\<lparr>cached := True\<rparr>) @
      [InProgressRemove (item_B\<lparr>cached := True\<rparr>) False, Release]"
    and "filter cache_mutation
        (new_events fresh (snd (checked idle_env (item_B\<lparr>cached := True\<rparr>) fresh))) =
      [InProgressRemove (item_B\<lparr>cached := True\<rparr>) False]"
    unfolding opb by blast+
  moreover from wc fc
  have "filter cache_mutation
        (new_events fresh (snd (checked idle_env (item_A\<lparr>caching := False\<rparr>) fresh))) =
      [InProgressRemove (item_A\<lparr>caching := False\<rparr>) False]"
    unfolding opc by blast
  ultimately show ?thesis
    using fa fb fc unfolding ca cb by simp
qed



subsection \<open>The abort loop\<close>

lemma abort_inner_unfold:
  "abort_inner env s =
     (case no_more_threads env s of
        (Inl x, s1) \<Rightarrow> (Inl x, s1)
      | (Inr True, s1) \<Rightarrow> end_log_output env s1
      | (Inr False, s1) \<Rightarrow>
          if num_waited s1 > 30
          then seq (call env (LogError ''Thread wait timeout'')) (\<lambda>_. end_log_output env) s1
          else (case wait_round env s1 of
                  (Inl x, s5) \<Rightarrow> (Inl x, s5)
                | (Inr _, s5) \<Rightarrow> abort_inner env s5))"
  by (subst abort_inner.simps)
     (simp add: wait_round_def split: prod.splits sum.splits bool.splits)

lemma no_more_threads_Inr:
  "no_more_threads env s = (Inr b, s1) \<longleftrightarrow>
     raises env (trace s @ [Acquire]) = None \<and> b = threader_finished env (trace s @ [Acquire]) \<and>
     s1 = s\<lparr>trace := trace s @ [Acquire, ThreaderFinished b, Release]\<rparr>"
  by (auto simp: no_more_threads_def synchronized_eq query_Inr emit_def)

lemma wait_round_Inr:
  assumes "wait_round env s1 = (Inr r, s5)"
  shows "s5 = s1\<lparr>num_waited := num_waited s1 + 1,
                  trace := trace s1 @
                    [Acquire, ActiveThreads (threader_active_threads env (trace s1 @ [Acquire])),
                     Release, LogWarn (threader_active_threads env (trace s1 @ [Acquire])),
                     Acquire, ThreaderFinish, Release, Sleep 2]\<rparr>"
  using assms
  by (auto simp: wait_round_def active_threads_def finish_def synchronized_def query_def
      call_def emit_def split: prod.splits sum.splits option.splits)

lemma abort_inner_induct [case_names round]:
  assumes "\<And>s. (\<And>s1 r s5. no_more_threads env s = (Inr False, s1) \<Longrightarrow> \<not> 30 < num_waited s1 \<Longrightarrow>
                    wait_round env s1 = (Inr r, s5) \<Longrightarrow> P s5) \<Longrightarrow> P s"
  shows "P s"
proof (induction "nat (31 - num_waited s)" arbitrary: s rule: less_induct)
  case less
  show ?case
  proof (rule assms)
    fix s1 r s5
    assume "no_more_threads env s = (Inr False, s1)" "\<not> 30 < num_waited s1"
      "wait_round env s1 = (Inr r, s5)"
    then have "num_waited s5 = num_waited s + 1" "num_waited s \<le> 30"
      by (auto simp: no_more_threads_Inr dest!: wait_round_Inr)
    then have "nat (31 - num_waited s5) < nat (31 - num_waited s)" by simp
    then show "P s5" by (rule less)
  qed
qed

lemma end_log_output_Inr:
  assumes "end_log_output env s = (Inr r, s')"
  shows "s' = s\<lparr>trace := trace s @ end_events (config s)\<rparr>"
proof -
  from assms obtain s1 where
    "for_each (\<lambda>l. call env (EndOutput l)) (sinks (config s)) (emit Acquire s) = (Inr r, s1)"
    and s': "s' = emit Release s1"
    unfolding end_log_output_def synchronized_eq
    by (auto simp: fanout_for_each[of env EndOutput, simplified])
  from for_each_call_Inr[OF this(1)] s' show ?thesis
    by (simp add: emit_def end_events_def)
qed

lemma advances_fanout:
  assumes "\<And>l. \<not> refused (f l)"
  shows "advances s (snd (synchronized (\<lambda>s.
           seq (call env (f (cfg_logger (config s))))
             (\<lambda>_. for_each (\<lambda>l. call env (f l)) (cfg_fileoutput (config s))) s) s)) 0"
  by (intro advances_synchronized advances_seq advances_call advances_for_each assms)

lemma advances_end_log_output: "advances s (snd (end_log_output env s)) 0"
  unfolding end_log_output_def by (rule advances_fanout) simp

lemma advances_start_log_output: "advances s (snd (start_log_output env s)) 0"
  unfolding start_log_output_def by (rule advances_fanout) simp

lemma advances_no_more_threads: "advances s (snd (no_more_threads env s)) 0"
  unfolding no_more_threads_def
  by (intro advances_synchronized advances_query) simp

lemma advances_active_threads: "advances s (snd (active_threads env s)) 0"
  unfolding active_threads_def
  by (intro advances_synchronized advances_query) simp

lemma advances_finish: "advances s (snd (finish env s)) 0"
  unfolding finish_def
  by (intro advances_synchronized advances_call) simp

lemma advances_wait_round: "advances s (snd (wait_round env s)) 0"
proof -
  obtain r2 s2 where a: "active_threads env s = (r2, s2)" by (cases "active_threads env s")
  with advances_active_threads[of s env] have a2: "advances s s2 0" by simp
  show ?thesis
  proof (cases r2)
    case (Inl x)
    with a a2 show ?thesis by (simp add: wait_round_def)
  next
    case (Inr num)
    obtain r3 s3 where w: "call env (LogWarn num) s2 = (r3, s3)"
      by (cases "call env (LogWarn num) s2")
    with advances_call[of "LogWarn num" s2 env] advances_trans[OF a2]
    have a3: "advances s s3 0" by fastforce
    show ?thesis
    proof (cases r3)
      case (Inl x)
      with a Inr w a3 show ?thesis by (simp add: wait_round_def)
    next
      case r3: (Inr u)
      obtain r4 s4 where f: "finish env s3 = (r4, s4)" by (cases "finish env s3")
      with advances_finish[of s3 env] advances_trans[OF a3]
      have a4: "advances s s4 0" by fastforce
      show ?thesis
      proof (cases r4)
        case (Inl x)
        with a Inr w r3 f a4 show ?thesis by (simp add: wait_round_def)
      next
        case r4: (Inr u')
        have "advances s4 (s4\<lparr>num_waited := num_waited s4 + 1\<rparr>) 0"
          by (rule advances_num_waited)
        from advances_trans[OF a4 this]
        have "advances s (s4\<lparr>num_waited := num_waited s4 + 1\<rparr>) 0" by simp
        from advances_trans[OF this advances_call[of "Sleep 2" _ env]]
        have "advances s (snd (call env (Sleep 2) (s4\<lparr>num_waited := num_waited s4 + 1\<rparr>))) 0"
          by simp
        with a Inr w r3 f r4 show ?thesis by (simp add: wait_round_def)
      qed
    qed
  qed
qed

lemma advances_abort_inner: "advances s (snd (abort_inner env s)) 0"
proof (induction s rule: abort_inner_induct[where env = env])
  case (round s)
  obtain q s1 where n: "no_more_threads env s = (q, s1)" by (cases "no_more_threads env s")
  with advances_no_more_threads[of s env] have a1: "advances s s1 0" by simp
  show ?case
  proof (cases q)
    case (Inl x)
    with n a1 show ?thesis by (simp add: abort_inner_unfold)
  next
    case (Inr b)
    show ?thesis
    proof (cases b)
      case True
      with n Inr advances_trans[OF a1 advances_end_log_output[of s1 env]] show ?thesis
        by (simp add: abort_inner_unfold)
    next
      case False
      show ?thesis
      proof (cases "30 < num_waited s1")
        case True
        have "advances s1 (snd (seq (call env (LogError ''Thread wait timeout''))
                (\<lambda>_. end_log_output env) s1)) 0"
          by (intro advances_seq advances_call advances_end_log_output) simp
        from advances_trans[OF a1 this] n Inr False True show ?thesis
          by (simp add: abort_inner_unfold)
      next
        case late: False
        obtain r5 s5 where w: "wait_round env s1 = (r5, s5)" by (cases "wait_round env s1")
        with advances_wait_round[of s1 env] advances_trans[OF a1]
        have a5: "advances s s5 0" by fastforce
        show ?thesis
        proof (cases r5)
          case (Inl x)
          with n Inr False late w a5 show ?thesis by (simp add: abort_inner_unfold)
        next
          case r5: (Inr u)
          from round[of s1 u s5] n Inr False late w r5
          have "advances s5 (snd (abort_inner env s5)) 0" by simp
          from advances_trans[OF a5 this] n Inr False late w r5 show ?thesis
            by (simp add: abort_inner_unfold)
        qed
      qed
    qed
  qed
qed

lemma advances_config: "advances s s' k \<Longrightarrow> config s' = config s"
  by (auto simp: advances_def)

lemma no_more_threads_advances: "no_more_threads env s = (q, s1) \<Longrightarrow> advances s s1 0"
  using advances_no_more_threads[of s env] by simp

lemma wait_round_advances: "wait_round env s = (q, s1) \<Longrightarrow> advances s s1 0"
  using advances_wait_round[of s env] by simp

lemma abort_inner_advances: "abort_inner env s = (q, s1) \<Longrightarrow> advances s s1 0"
  using advances_abort_inner[of s env] by simp

lemma abort_inner_Inr_ends:
  "abort_inner env s = (Inr r, s') \<Longrightarrow> \<exists>pre. trace s' = pre @ end_events (config s)"
proof (induction s rule: abort_inner_induct[where env = env])
  case (round s)
  obtain q s1 where n: "no_more_threads env s = (q, s1)" by (cases "no_more_threads env s")
  from advances_config[OF no_more_threads_advances[OF n]]
  have c1: "config s1 = config s" .
  show ?case
  proof (cases q)
    case (Inl x)
    with n round.prems show ?thesis by (simp add: abort_inner_unfold)
  next
    case (Inr b)
    show ?thesis
    proof (cases b)
      case True
      with n Inr round.prems have "end_log_output env s1 = (Inr r, s')"
        by (simp add: abort_inner_unfold)
      from end_log_output_Inr[OF this] c1 show ?thesis by simp
    next
      case False
      show ?thesis
      proof (cases "30 < num_waited s1")
        case True
        with n Inr False round.prems obtain s2 where
          "call env (LogError ''Thread wait timeout'') s1 = (Inr (), s2)"
          and e: "end_log_output env s2 = (Inr r, s')"
          by (auto simp: abort_inner_unfold seq_Inr)
        then have "config s2 = config s1" by (simp add: call_Inr)
        with end_log_output_Inr[OF e] c1 show ?thesis by simp
      next
        case late: False
        obtain r5 s5 where w: "wait_round env s1 = (r5, s5)" by (cases "wait_round env s1")
        from advances_config[OF wait_round_advances[OF w]]
        have c5: "config s5 = config s1" .
        show ?thesis
        proof (cases r5)
          case (Inl x)
          with n Inr False late w round.prems show ?thesis by (simp add: abort_inner_unfold)
        next
          case r5: (Inr u)
          with n Inr False late w round.prems have "abort_inner env s5 = (Inr r, s')"
            by (simp add: abort_inner_unfold)
          from round.IH[of s1 u s5, OF _ _ _ this] n Inr False late w r5 c1 c5
          show ?thesis by simp
        qed
      qed
    qed
  qed
qed

lemma abort_retry_result:
  assumes "abort_retry env s = Some y"
  shows "advances s (snd y) 0 \<and> fst y \<noteq> Inl KeyboardInterrupt \<and> fst y \<noteq> Inl SystemExit \<and>
         (fst y = Inr () \<longrightarrow> (\<exists>pre. trace (snd y) = pre @ end_events (config s)))"
  using assms
proof (induction rule: abort_retry.raw_induct[rotated 1, consumes 1])
  case (1 abort_retry' env s y)
  obtain q s1 where a: "abort_inner env s = (q, s1)" by (cases "abort_inner env s")
  from abort_inner_advances[OF a] have adv: "advances s s1 0" .
  show ?case
  proof (cases q)
    case (Inl x)
    show ?thesis
    proof (cases "x = OtherError")
      case True
      with 1(2) a Inl have "y = (Inl OtherError, s1)" by simp
      with adv show ?thesis by simp
    next
      case False
      with 1(2) a Inl have "abort_retry' env s1 = Some y"
        by (cases x) simp_all
      from 1(1)[OF this] advances_trans[OF adv, of "snd y" 0] advances_config[OF adv]
      show ?thesis by simp
    qed
  next
    case (Inr u)
    with 1(2) a have y: "y = (Inr (), s1)" by simp
    from a Inr have "abort_inner env s = (Inr (), s1)" by simp
    from abort_inner_Inr_ends[OF this] y adv show ?thesis by simp
  qed
qed

lemma abort_retry_Inl:
  "abort_inner env s = (Inl x, s1) \<Longrightarrow> x \<noteq> OtherError \<Longrightarrow> abort_retry env s = abort_retry env s1"
  by (subst abort_retry.simps) (cases x; simp)

lemma abort_retry_Inr:
  "abort_inner env s = (Inr u, s1) \<Longrightarrow> abort_retry env s = Some (Inr (), s1)"
  by (subst abort_retry.simps) simp

subsection \<open>The abort loop when nothing raises\<close>

lemma no_more_threads_quiet:
  "quiet_from env (trace s) \<Longrightarrow>
   no_more_threads env s =
     (Inr (threader_finished env (trace s @ [Acquire])),
      s\<lparr>trace := trace s @ [Acquire, ThreaderFinished (threader_finished env (trace s @ [Acquire])),
                              Release]\<rparr>)"
  by (simp add: no_more_threads_def synchronized_def query_quiet quiet_from_append emit_def)

lemma wait_round_quiet:
  assumes "quiet_from env (trace s)"
  shows "wait_round env s =
     (Inr (), s\<lparr>num_waited := num_waited s + 1,
               trace := trace s @ round_events (threader_active_threads env (trace s @ [Acquire]))\<rparr>)"
proof -
  from assms have "raises env (trace s @ h) = None" for h
    by (simp add: quiet_from_def)
  from this[of "[Acquire]"] this[of "[Acquire, a, Release]" for a]
    this[of "[Acquire, a, Release, b, Acquire]" for a b]
    this[of "[Acquire, a, Release, b, Acquire, ThreaderFinish, Release]" for a b]
  show ?thesis
    by (simp add: wait_round_def active_threads_def finish_def synchronized_def query_def
        call_def emit_def round_events_def)
qed

lemma end_log_output_quiet:
  "quiet_from env (trace s) \<Longrightarrow>
   end_log_output env s = (Inr (), s\<lparr>trace := trace s @ end_events (config s)\<rparr>)"
  unfolding end_log_output_def synchronized_def
  by (simp add: fanout_for_each[of env EndOutput, simplified] for_each_call_quiet
      quiet_from_append emit_def end_events_def)

lemma filter_end_events: "filter end_of_output (end_events c) = map EndOutput (sinks c)"
  by (simp add: end_events_def filter_map comp_def)

lemma round_events_counts:
  "iterations (round_events n) = 0" "retries (round_events n) = 1" "timeouts (round_events n) = 0"
  "filter end_of_output (round_events n) = []"
  by (simp_all add: round_events_def iterations_def retries_def timeouts_def)

lemma abort_inner_never:
  "quiet_from env (trace s) \<Longrightarrow> \<forall>h. \<not> threader_finished env (trace s @ h) \<Longrightarrow>
   num_waited s = 31 - int j \<Longrightarrow> j \<le> 31 \<Longrightarrow>
    \<exists>s' evs. abort_inner env s = (Inr (), s') \<and> num_waited s' = 31 \<and>
      trace s' = trace s @ evs @ end_events (config s) \<and>
      iterations evs = j + 1 \<and> retries evs = j \<and> timeouts evs = 1 \<and>
      filter end_of_output evs = []"
proof (induction j arbitrary: s)
  case 0
  let ?s1 = "s\<lparr>trace := trace s @ [Acquire, ThreaderFinished False, Release]\<rparr>"
  let ?evs = "[Acquire, ThreaderFinished False, Release, LogError ''Thread wait timeout'']"
  from 0 have n: "no_more_threads env s = (Inr False, ?s1)"
    by (simp add: no_more_threads_quiet)
  from "0.prems"(1) have q1: "quiet_from env (trace ?s1)"
    by (rule quiet_from_later) simp
  from "0.prems"(1) have q2: "quiet_from env (trace (emit (LogError ''Thread wait timeout'') ?s1))"
    by (rule quiet_from_later) simp
  from 0 have late: "30 < num_waited ?s1" by simp
  let ?s' = "s\<lparr>trace := trace s @ ?evs @ end_events (config s)\<rparr>"
  from late n call_quiet[OF q1] end_log_output_quiet[OF q2]
  have "abort_inner env s = (Inr (), ?s')"
    by (subst abort_inner_unfold) (simp add: seq_def emit_def)
  moreover from 0 have "num_waited ?s' = 31" by simp
  moreover have "trace ?s' = trace s @ ?evs @ end_events (config s)" by simp
  moreover have "iterations ?evs = 0 + 1" "retries ?evs = 0" "timeouts ?evs = 1"
    "filter end_of_output ?evs = []"
    by (simp_all add: iterations_def retries_def timeouts_def)
  ultimately show ?case by blast
next
  case (Suc j)
  let ?s1 = "s\<lparr>trace := trace s @ [Acquire, ThreaderFinished False, Release]\<rparr>"
  let ?n = "threader_active_threads env (trace ?s1 @ [Acquire])"
  let ?s5 = "?s1\<lparr>num_waited := num_waited ?s1 + 1, trace := trace ?s1 @ round_events ?n\<rparr>"
  from Suc.prems have n: "no_more_threads env s = (Inr False, ?s1)"
    by (simp add: no_more_threads_quiet)
  from Suc.prems(1) have q1: "quiet_from env (trace ?s1)"
    by (rule quiet_from_later) simp
  from Suc.prems have "\<not> 30 < num_waited ?s1" by simp
  with n wait_round_quiet[OF q1] have u: "abort_inner env s = abort_inner env ?s5"
    by (subst abort_inner_unfold) simp
  from Suc.prems(1) have "quiet_from env (trace ?s5)"
    by (rule quiet_from_later) simp
  moreover from Suc.prems have "\<forall>h. \<not> threader_finished env (trace ?s5 @ h)"
    "num_waited ?s5 = 31 - int j" "j \<le> 31"
    by simp_all
  ultimately have "quiet_from env (trace ?s5)" "\<forall>h. \<not> threader_finished env (trace ?s5 @ h)"
    "num_waited ?s5 = 31 - int j" "j \<le> 31" .
  from Suc.IH[OF this] obtain s' evs where
    r: "abort_inner env ?s5 = (Inr (), s')" "num_waited s' = 31"
    and t: "trace s' = trace ?s5 @ evs @ end_events (config ?s5)"
    and c: "iterations evs = j + 1" "retries evs = j" "timeouts evs = 1"
      "filter end_of_output evs = []"
    by blast
  let ?evs = "[Acquire, ThreaderFinished False, Release] @ round_events ?n @ evs"
  from r u have "abort_inner env s = (Inr (), s')" by simp
  moreover note r(2)
  moreover from t have "trace s' = trace s @ ?evs @ end_events (config s)" by simp
  moreover from c round_events_counts[of ?n]
  have "iterations ?evs = Suc j + 1" "retries ?evs = Suc j" "timeouts ?evs = 1"
    "filter end_of_output ?evs = []"
    by (simp_all add: iterations_def retries_def timeouts_def)
  ultimately show ?case by blast
qed

lemma abort_inner_finishing:
  assumes fin: "\<forall>h. threader_finished env (h0 @ h) = (k \<le> iterations h)"
    and k: "k \<le> 31"
  shows "quiet_from env (trace s) \<Longrightarrow> trace s = h0 @ h \<Longrightarrow> iterations h + j = k \<Longrightarrow>
    num_waited s = int (iterations h) \<Longrightarrow>
    \<exists>s' evs. abort_inner env s = (Inr (), s') \<and> num_waited s' = int k \<and>
      trace s' = trace s @ evs @ end_events (config s) \<and>
      iterations evs = j \<and> retries evs = j \<and> timeouts evs = 0 \<and>
      filter end_of_output evs = []"
proof (induction j arbitrary: s h)
  case 0
  let ?evs = "[Acquire, ThreaderFinished True, Release]"
  let ?s1 = "s\<lparr>trace := trace s @ ?evs\<rparr>"
  let ?s' = "s\<lparr>trace := trace s @ ?evs @ end_events (config s)\<rparr>"
  from 0 fin have "threader_finished env (trace s @ [Acquire])"
    by (simp add: iterations_def)
  with 0 have n: "no_more_threads env s = (Inr True, ?s1)"
    by (simp add: no_more_threads_quiet)
  from "0.prems"(1) have "quiet_from env (trace ?s1)"
    by (rule quiet_from_later) simp
  from n end_log_output_quiet[OF this] have "abort_inner env s = (Inr (), ?s')"
    by (subst abort_inner_unfold) simp
  moreover from 0 have "num_waited ?s' = int k" by simp
  moreover have "trace ?s' = trace s @ ?evs @ end_events (config s)" by simp
  moreover have "iterations ?evs = 0" "retries ?evs = 0" "timeouts ?evs = 0"
    "filter end_of_output ?evs = []"
    by (simp_all add: iterations_def retries_def timeouts_def)
  ultimately show ?case by blast
next
  case (Suc j)
  let ?s1 = "s\<lparr>trace := trace s @ [Acquire, ThreaderFinished False, Release]\<rparr>"
  let ?n = "threader_active_threads env (trace ?s1 @ [Acquire])"
  let ?h = "h @ [Acquire, ThreaderFinished False, Release] @ round_events ?n"
  let ?s5 = "?s1\<lparr>num_waited := num_waited ?s1 + 1, trace := trace ?s1 @ round_events ?n\<rparr>"
  from Suc.prems fin have "\<not> threader_finished env (trace s @ [Acquire])"
    by (simp add: iterations_def)
  with Suc.prems have n: "no_more_threads env s = (Inr False, ?s1)"
    by (simp add: no_more_threads_quiet)
  from Suc.prems(1) have q1: "quiet_from env (trace ?s1)"
    by (rule quiet_from_later) simp
  from Suc.prems k have "\<not> 30 < num_waited ?s1" by simp
  with n wait_round_quiet[OF q1] have u: "abort_inner env s = abort_inner env ?s5"
    by (subst abort_inner_unfold) simp
  from Suc.prems(1) have "quiet_from env (trace ?s5)"
    by (rule quiet_from_later) simp
  moreover from Suc.prems round_events_counts(1)[of ?n]
  have "trace ?s5 = h0 @ ?h" "iterations ?h + j = k" "num_waited ?s5 = int (iterations ?h)"
    by (simp_all add: iterations_def)
  ultimately obtain s' evs where
    r: "abort_inner env ?s5 = (Inr (), s')" "num_waited s' = int k"
    and t: "trace s' = trace ?s5 @ evs @ end_events (config ?s5)"
    and c: "iterations evs = j" "retries evs = j" "timeouts evs = 0"
      "filter end_of_output evs = []"
    using Suc.IH[of ?s5 ?h] by blast
  let ?evs = "[Acquire, ThreaderFinished False, Release] @ round_events ?n @ evs"
  from r u have "abort_inner env s = (Inr (), s')" by simp
  moreover note r(2)
  moreover from t have "trace s' = trace s @ ?evs @ end_events (config s)" by simp
  moreover from c round_events_counts[of ?n]
  have "iterations ?evs = Suc j" "retries ?evs = Suc j" "timeouts ?evs = 0"
    "filter end_of_output ?evs = []"
    by (simp_all add: iterations_def retries_def timeouts_def)
  ultimately show ?case by blast
qed

lemma end_events_counts:
  "iterations (end_events c) = 0" "retries (end_events c) = 0" "timeouts (end_events c) = 0"
proof -
  have "count_list (map EndOutput ls) e = 0" if "\<not> end_of_output e" for ls e
    using that by (induction ls) auto
  then show "iterations (end_events c) = 0" "retries (end_events c) = 0"
    "timeouts (end_events c) = 0"
    by (simp_all add: end_events_def iterations_def retries_def timeouts_def)
qed

lemma abort_never_finishing:
  assumes "quiet_from env (trace s)" and "\<forall>h. \<not> threader_finished env (trace s @ h)"
  shows "\<exists>s'. abort env s = Some (Inr (), s') \<and> num_waited s' = 31 \<and>
           iterations (new_events s s') = 32 \<and> retries (new_events s s') = 31 \<and>
           timeouts (new_events s s') = 1 \<and>
           filter end_of_output (new_events s s') = map EndOutput (sinks (config s))"
proof -
  from abort_inner_never[of env "s\<lparr>num_waited := 0\<rparr>" 31] assms
  obtain s' evs where r: "abort_inner env (s\<lparr>num_waited := 0\<rparr>) = (Inr (), s')"
    and w: "num_waited s' = 31"
    and t: "trace s' = trace s @ evs @ end_events (config s)"
    and c: "iterations evs = 31 + 1" "retries evs = 31" "timeouts evs = 1"
      "filter end_of_output evs = []"
    by auto
  from t have n: "new_events s s' = evs @ end_events (config s)" by (simp add: new_events_def)
  from c end_events_counts[of "config s"]
  have "iterations (new_events s s') = 32" "retries (new_events s s') = 31"
    "timeouts (new_events s s') = 1"
    "filter end_of_output (new_events s s') = map EndOutput (sinks (config s))"
    unfolding n by (simp_all add: iterations_def retries_def timeouts_def filter_end_events)
  with abort_retry_Inr[OF r] w show ?thesis by (simp add: abort_def)
qed

lemma abort_finishing:
  assumes "quiet_from env (trace s)"
    and "\<forall>h. threader_finished env (trace s @ h) = (k \<le> iterations h)"
    and "k \<le> 31"
  shows "\<exists>s'. abort env s = Some (Inr (), s') \<and> num_waited s' = int k \<and>
           iterations (new_events s s') = k \<and> retries (new_events s s') = k \<and>
           timeouts (new_events s s') = 0 \<and>
           filter end_of_output (new_events s s') = map EndOutput (sinks (config s))"
proof -
  from abort_inner_finishing[OF assms(2,3), of "s\<lparr>num_waited := 0\<rparr>" "[]" k] assms(1)
  obtain s' evs where r: "abort_inner env (s\<lparr>num_waited := 0\<rparr>) = (Inr (), s')"
    and w: "num_waited s' = int k"
    and t: "trace s' = trace s @ evs @ end_events (config s)"
    and c: "iterations evs = k" "retries evs = k" "timeouts evs = 0"
      "filter end_of_output evs = []"
    by (auto simp: iterations_def)
  from t have n: "new_events s s' = evs @ end_events (config s)" by (simp add: new_events_def)
  from c end_events_counts[of "config s"]
  have "iterations (new_events s s') = k" "retries (new_events s s') = k"
    "timeouts (new_events s s') = 0"
    "filter end_of_output (new_events s s') = map EndOutput (sinks (config s))"
    unfolding n by (simp_all add: iterations_def retries_def timeouts_def filter_end_events)
  with abort_retry_Inr[OF r] w show ?thesis by (simp add: abort_def)
qed

text \<open>
  \<open>abort()\<close> ends whenever the collaborators stop raising at some point: every
  interrupted attempt makes the trace longer, and an attempt on which nothing raises
  returns.
\<close>

lemma abort_inner_returns:
  "quiet_from env (trace s) \<Longrightarrow> \<exists>s'. abort_inner env s = (Inr (), s')"
proof (induction s rule: abort_inner_induct[where env = env])
  case (round s)
  let ?b = "threader_finished env (trace s @ [Acquire])"
  let ?s1 = "s\<lparr>trace := trace s @ [Acquire, ThreaderFinished ?b, Release]\<rparr>"
  from round.prems have n: "no_more_threads env s = (Inr ?b, ?s1)"
    by (rule no_more_threads_quiet)
  from round.prems have q1: "quiet_from env (trace ?s1)"
    by (rule quiet_from_later) simp
  show ?case
  proof (cases ?b)
    case True
    with n end_log_output_quiet[OF q1] show ?thesis
      by (subst abort_inner_unfold) simp
  next
    case False
    show ?thesis
    proof (cases "30 < num_waited ?s1")
      case True
      from round.prems
      have "quiet_from env (trace (emit (LogError ''Thread wait timeout'') ?s1))"
        by (rule quiet_from_later) simp
      from end_log_output_quiet[OF this] call_quiet[OF q1] n False True show ?thesis
        by (subst abort_inner_unfold) (simp add: seq_def)
    next
      case early: False
      let ?n = "threader_active_threads env (trace ?s1 @ [Acquire])"
      let ?s5 = "?s1\<lparr>num_waited := num_waited ?s1 + 1, trace := trace ?s1 @ round_events ?n\<rparr>"
      from wait_round_quiet[OF q1] have w: "wait_round env ?s1 = (Inr (), ?s5)" .
      from round.prems have "quiet_from env (trace ?s5)"
        by (rule quiet_from_later) simp
      with round.IH[of ?s1 "()" ?s5] n False early w
      obtain s' where "abort_inner env ?s5 = (Inr (), s')" by auto
      with n False early w show ?thesis
        by (subst abort_inner_unfold) simp
    qed
  qed
qed

lemma abort_inner_grows:
  assumes "abort_inner env s = (q, s')"
  shows "length (trace s) < length (trace s')"
proof -
  obtain q1 s1 where n: "no_more_threads env s = (q1, s1)" by (cases "no_more_threads env s")
  then have l: "length (trace s) < length (trace s1)"
    by (auto simp: no_more_threads_def synchronized_def query_def emit_def split: option.splits)
  have "advances s1 s' 0"
  proof (cases q1)
    case (Inl x)
    with n assms show ?thesis by (simp add: abort_inner_unfold advances_refl)
  next
    case (Inr b)
    show ?thesis
    proof (cases b)
      case True
      with n Inr assms advances_end_log_output[of s1 env] show ?thesis
        by (simp add: abort_inner_unfold)
    next
      case False
      show ?thesis
      proof (cases "30 < num_waited s1")
        case True
        have "advances s1 (snd (seq (call env (LogError ''Thread wait timeout''))
                (\<lambda>_. end_log_output env) s1)) 0"
          by (intro advances_seq advances_call advances_end_log_output) simp
        with n Inr False True assms show ?thesis
          by (simp add: abort_inner_unfold)
      next
        case early: False
        obtain r5 s5 where w: "wait_round env s1 = (r5, s5)" by (cases "wait_round env s1")
        show ?thesis
        proof (cases r5)
          case (Inl x)
          with n Inr False early w assms wait_round_advances[OF w] show ?thesis
            by (simp add: abort_inner_unfold)
        next
          case r5: (Inr u)
          with n Inr False early w assms have "abort_inner env s5 = (q, s')"
            by (simp add: abort_inner_unfold)
          from advances_trans[OF wait_round_advances[OF w] abort_inner_advances[OF this]]
          show ?thesis by simp
        qed
      qed
    qed
  qed
  then have "length (trace s1) \<le> length (trace s')"
    by (auto simp: advances_def)
  with l show ?thesis by simp
qed

lemma abort_retry_returns:
  assumes "\<forall>h. N \<le> length h \<longrightarrow> raises env h = None"
  shows "\<exists>y. abort_retry env s = Some y"
proof (induction "N - length (trace s)" arbitrary: s rule: less_induct)
  case less
  obtain q s1 where a: "abort_inner env s = (q, s1)" by (cases "abort_inner env s")
  show ?case
  proof (cases q)
    case (Inr u)
    with a abort_retry_Inr[of env s u s1] show ?thesis by simp
  next
    case (Inl x)
    show ?thesis
    proof (cases "x = OtherError")
      case True
      with a Inl show ?thesis by (subst abort_retry.simps) simp
    next
      case False
      have "length (trace s) < N"
      proof (rule ccontr)
        assume "\<not> length (trace s) < N"
        with assms have "quiet_from env (trace s)" by (simp add: quiet_from_def)
        from abort_inner_returns[OF this] a Inl show False by simp
      qed
      with abort_inner_grows[OF a] have "N - length (trace s1) < N - length (trace s)"
        by simp
      from less[OF this] abort_retry_Inl[of env s x s1] a Inl False show ?thesis
        by simp
    qed
  qed
qed

lemma abort_returns:
  "\<forall>h. N \<le> length h \<longrightarrow> raises env h = None \<Longrightarrow> \<exists>y. abort env s = Some y"
  unfolding abort_def by (rule abort_retry_returns)

text \<open>
  C1, as the code has it.  Let no collaborator call raise from the call of \<open>abort()\<close>
  on.  If the threader never reports that it is finished, \<open>abort()\<close> returns after the
  loop body was entered 32 times: 31 waiting rounds, each asking the threader to
  finish, and then the round that writes the timeout diagnostic; the diagnostic is
  written once.  If the threader reports unfinished threads \<open>k < 31\<close> times and is
  finished from then on, \<open>abort()\<close> returns after \<open>k\<close> waiting rounds and writes no
  diagnostic.  In both cases \<open>end_output\<close> is called exactly once on the primary logger
  and on each file output.
\<close>

theorem abort_loop_terminates:
  assumes "quiet_from env (trace s)"
  shows "((\<forall>h. \<not> threader_finished env (trace s @ h)) \<longrightarrow>
            (\<exists>s'. abort env s = Some (Inr (), s') \<and>
               iterations (new_events s s') = 32 \<and> retries (new_events s s') = 31 \<and>
               timeouts (new_events s s') = 1 \<and>
               filter end_of_output (new_events s s') =
                 map EndOutput (cfg_logger (config s) # cfg_fileoutput (config s)))) \<and>
         (k < 31 \<and> (\<forall>h. threader_finished env (trace s @ h) = (k \<le> iterations h)) \<longrightarrow>
            (\<exists>s'. abort env s = Some (Inr (), s') \<and>
               iterations (new_events s s') = k \<and> retries (new_events s s') = k \<and>
               timeouts (new_events s s') = 0 \<and>
               filter end_of_output (new_events s s') =
                 map EndOutput (cfg_logger (config s) # cfg_fileoutput (config s))))"
proof (intro conjI impI)
  assume "\<forall>h. \<not> threader_finished env (trace s @ h)"
  from abort_never_finishing[OF assms this]
  show "\<exists>s'. abort env s = Some (Inr (), s') \<and>
          iterations (new_events s s') = 32 \<and> retries (new_events s s') = 31 \<and>
          timeouts (new_events s s') = 1 \<and>
          filter end_of_output (new_events s s') =
            map EndOutput (cfg_logger (config s) # cfg_fileoutput (config s))"
    by (auto simp: sinks_def)
next
  assume "k < 31 \<and> (\<forall>h. threader_finished env (trace s @ h) = (k \<le> iterations h))"
  then have "\<forall>h. threader_finished env (trace s @ h) = (k \<le> iterations h)" "k \<le> 31"
    by simp_all
  from abort_finishing[OF assms this]
  show "\<exists>s'. abort env s = Some (Inr (), s') \<and>
          iterations (new_events s s') = k \<and> retries (new_events s s') = k \<and>
          timeouts (new_events s s') = 0 \<and>
          filter end_of_output (new_events s s') =
            map EndOutput (cfg_logger (config s) # cfg_fileoutput (config s))"
    by (auto simp: sinks_def)
qed

lemma quiet_examples:
  "quiet_from idle_env t" "quiet_from busy_env t" "quiet_from (draining_env k) t"
  by (simp_all add: quiet_from_def idle_env_def busy_env_def draining_env_def)

text \<open>
  The claim as stated (31 iterations, 30 retries) fails: with a threader that never
  finishes the loop body is entered 32 times and the threader is asked 31 times to
  finish.
\<close>

theorem abort_loop_counterexample:
  "abort busy_env fresh \<noteq> None \<and>
   iterations (new_events fresh (snd (the (abort busy_env fresh)))) = 32 \<and>
   retries (new_events fresh (snd (the (abort busy_env fresh)))) = 31 \<and>
   num_waited (snd (the (abort busy_env fresh))) = 31"
proof -
  have "\<forall>h. \<not> threader_finished busy_env (trace fresh @ h)"
    by (simp add: busy_env_def idle_env_def)
  from abort_never_finishing[OF quiet_examples(2) this] show ?thesis
    by auto
qed

theorem abort_loop_terminates_witness:
  "quiet_from busy_env (trace fresh) \<and>
   (\<forall>h. \<not> threader_finished busy_env (trace fresh @ h)) \<and>
   (\<exists>s'. abort busy_env fresh = Some (Inr (), s') \<and>
      iterations (new_events fresh s') = 32 \<and> retries (new_events fresh s') = 31 \<and>
      timeouts (new_events fresh s') = 1 \<and>
      filter end_of_output (new_events fresh s') =
        [EndOutput ''text'', EndOutput ''html'', EndOutput ''csv'']) \<and>
   quiet_from (draining_env 2) (trace fresh) \<and> (2::nat) < 31 \<and>
   (\<forall>h. threader_finished (draining_env 2) (trace fresh @ h) = (2 \<le> iterations h)) \<and>
   (\<exists>s'. abort (draining_env 2) fresh = Some (Inr (), s') \<and>
      iterations (new_events fresh s') = 2 \<and> retries (new_events fresh s') = 2 \<and>
      timeouts (new_events fresh s') = 0 \<and>
      filter end_of_output (new_events fresh s') =
        [EndOutput ''text'', EndOutput ''html'', EndOutput ''csv''])"
proof -
  have never: "\<forall>h. \<not> threader_finished busy_env (trace fresh @ h)"
    by (simp add: busy_env_def idle_env_def)
  have drains: "\<forall>h. threader_finished (draining_env 2) (trace fresh @ h) = (2 \<le> iterations h)"
    by (simp add: draining_env_def idle_env_def fresh_def)
  have c: "cfg_logger (config fresh) # cfg_fileoutput (config fresh) = [''text'', ''html'', ''csv'']"
    by (simp add: fresh_def example_config_def)
  from abort_loop_terminates[where env = busy_env and s = fresh and k = 0, OF quiet_examples(2)]
    abort_loop_terminates[where env = "draining_env 2" and s = fresh and k = 2,
      OF quiet_examples(3)]
    never drains quiet_examples(2)[of "trace fresh"] quiet_examples(3)[of 2 "trace fresh"]
  show ?thesis
    unfolding c by simp
qed

subsection \<open>Interrupts during abort\<close>

text \<open>
  C9. A \<open>KeyboardInterrupt\<close> or \<open>SystemExit\<close> raised anywhere in \<open>_abort\<close> is caught:
  \<open>abort()\<close> goes on as a new attempt of \<open>_abort\<close> from the state the interrupted
  attempt left.  Whenever \<open>abort()\<close> ends, it does not end with one of these two
  exceptions, and when it returns, the last calls it made are a complete
  \<open>end_log_output()\<close>: \<open>end_output\<close> on the primary logger and on every file output.
  And \<open>abort()\<close> does end if from some point on no call raises.
\<close>

theorem abort_swallows_interrupts:
  "(abort_inner env t = (Inl x, t') \<and> x \<noteq> OtherError \<longrightarrow>
      abort_retry env t = abort_retry env t') \<and>
   (abort env s = Some (r, s') \<longrightarrow>
      r \<noteq> Inl KeyboardInterrupt \<and> r \<noteq> Inl SystemExit \<and>
      (r = Inr () \<longrightarrow>
         (\<exists>pre. trace s' = pre @ [Acquire] @
                  map EndOutput (cfg_logger (config s) # cfg_fileoutput (config s)) @ [Release]))) \<and>
   ((\<forall>h. N \<le> length h \<longrightarrow> raises env h = None) \<longrightarrow> (\<exists>y. abort env s = Some y))"
  using abort_retry_result[of env "s\<lparr>num_waited := 0\<rparr>" "(r, s')"] abort_retry_Inl[of env t x t']
    abort_returns[of N env s]
  by (simp add: abort_def end_events_def sinks_def)

theorem abort_swallows_interrupts_witness:
  "abort_inner interrupting_env fresh =
     (Inl KeyboardInterrupt, fresh\<lparr>trace := [Acquire, Raised KeyboardInterrupt, Release]\<rparr>) \<and>
   abort_retry interrupting_env fresh =
     abort_retry interrupting_env (fresh\<lparr>trace := [Acquire, Raised KeyboardInterrupt, Release]\<rparr>) \<and>
   abort interrupting_env fresh =
     Some (Inr (), fresh\<lparr>trace :=
       [Acquire, Raised KeyboardInterrupt, Release, Acquire, Raised SystemExit, Release,
        Acquire, ThreaderFinished True, Release,
        Acquire, EndOutput ''text'', EndOutput ''html'', EndOutput ''csv'', Release]\<rparr>) \<and>
   (\<exists>pre. [Acquire, Raised KeyboardInterrupt, Release, Acquire, Raised SystemExit, Release,
           Acquire, ThreaderFinished True, Release,
           Acquire, EndOutput ''text'', EndOutput ''html'', EndOutput ''csv'', Release] =
          pre @ [Acquire, EndOutput ''text'', EndOutput ''html'', EndOutput ''csv'', Release]) \<and>
   (\<exists>y. abort interrupting_env fresh = Some y)"
proof -
  let ?s1 = "fresh\<lparr>trace := [Acquire, Raised KeyboardInterrupt, Release]\<rparr>"
  let ?s2 = "fresh\<lparr>trace := [Acquire, Raised KeyboardInterrupt, Release,
                              Acquire, Raised SystemExit, Release]\<rparr>"
  let ?s3 = "fresh\<lparr>trace :=
       [Acquire, Raised KeyboardInterrupt, Release, Acquire, Raised SystemExit, Release,
        Acquire, ThreaderFinished True, Release,
        Acquire, EndOutput ''text'', EndOutput ''html'', EndOutput ''csv'', Release]\<rparr>"
  have a1: "abort_inner interrupting_env fresh = (Inl KeyboardInterrupt, ?s1)"
    by (subst abort_inner_unfold)
       (simp add: no_more_threads_def synchronized_def query_def emit_def interrupting_env_def
          idle_env_def fresh_def)
  have a2: "abort_inner interrupting_env ?s1 = (Inl SystemExit, ?s2)"
    by (subst abort_inner_unfold)
       (simp add: no_more_threads_def synchronized_def query_def emit_def interrupting_env_def
          idle_env_def fresh_def)
  have a3: "abort_inner interrupting_env ?s2 = (Inr (), ?s3)"
    by (subst abort_inner_unfold)
       (simp add: no_more_threads_def end_log_output_def synchronized_def query_def call_def
          seq_def emit_def interrupting_env_def idle_env_def fresh_def example_config_def)
  have "fresh\<lparr>num_waited := 0\<rparr> = fresh" by (simp add: fresh_def)
  then have run: "abort interrupting_env fresh = Some (Inr (), ?s3)"
    by (simp add: abort_def abort_retry_Inl[OF a1] abort_retry_Inl[OF a2] abort_retry_Inr[OF a3])
  have stops: "\<forall>h. 5 \<le> length h \<longrightarrow> raises interrupting_env h = None"
    by (auto simp: interrupting_env_def idle_env_def)
  from abort_swallows_interrupts[of interrupting_env fresh KeyboardInterrupt ?s1 fresh "Inr ()" ?s3 5]
    a1 run stops
  show ?thesis
    by (simp add: fresh_def example_config_def)
qed

subsection \<open>Sequences of operations\<close>

lemma advances_return: "advances s (snd ((\<lambda>s. (Inr a, s)) s)) 0"
  by (simp add: advances_refl)

lemma advances_progress: "advances s s' k \<Longrightarrow> progress s s' k 0"
  by (auto simp: advances_def progress_def)

lemma progress_trans:
  "progress s s1 j m \<Longrightarrow> progress s1 s2 k n \<Longrightarrow> progress s s2 (j + k) (m + n)"
  by (auto simp: progress_def)

lemma progress_append_url:
  "\<exists>m\<le>1. progress s (snd (append_url env u s)) 0 m"
proof -
  let ?a = "emit Acquire s"
  let ?body = "seq (query env (\<lambda>h. cache_incoming_add env h u) (IncomingAdd u))
          (\<lambda>added. if \<not> added then log_url_inner env u else (\<lambda>s. (Inr (), s)))"
  have sync: "progress s (snd (append_url env u s)) 0 m" if "progress ?a (snd (?body ?a)) 0 m" for m
  proof -
    have "progress s ?a 0 0" by (simp add: progress_def)
    from progress_trans[OF this that]
    have "progress s (snd (?body ?a)) 0 m" by simp
    moreover have "progress (snd (?body ?a)) (emit Release (snd (?body ?a))) 0 0"
      by (simp add: progress_def)
    ultimately have "progress s (emit Release (snd (?body ?a))) 0 m"
      using progress_trans by fastforce
    then show ?thesis by (auto simp: append_url_def synchronized_def split: prod.splits)
  qed
  show ?thesis
  proof (cases "raises env (trace ?a)")
    case (Some x)
    then have "?body ?a = (Inl x, emit (Raised x) ?a)"
      by (simp add: seq_def query_def)
    then have "progress ?a (snd (?body ?a)) 0 0" by (simp add: progress_def)
    from sync[OF this] show ?thesis by auto
  next
    case None
    let ?b = "cache_incoming_add env (trace ?a) u"
    let ?s1 = "emit (IncomingAdd u ?b) ?a"
    from None have q: "query env (\<lambda>h. cache_incoming_add env h u) (IncomingAdd u) ?a = (Inr ?b, ?s1)"
      by (simp add: query_def)
    show ?thesis
    proof (cases ?b)
      case True
      with q have "?body ?a = (Inr (), ?s1)" by (simp add: seq_def)
      moreover from True have "progress ?a ?s1 0 0" by (simp add: progress_def)
      ultimately have "progress ?a (snd (?body ?a)) 0 0" by simp
      from sync[OF this] show ?thesis by auto
    next
      case False
      with q have b: "?body ?a = log_url_inner env u ?s1" by (simp add: seq_def)
      from False have "progress ?a ?s1 (- 1) 1" by (simp add: progress_def)
      from progress_trans[OF this advances_progress[OF advances_log_url_inner[of ?s1 env u]]] b
      have "progress ?a (snd (?body ?a)) 0 1" by simp
      from sync[OF this] show ?thesis by auto
    qed
  qed
qed

lemma advances_checked: "advances s (snd (checked env u s)) 1"
  unfolding checked_def
  by (intro advances_synchronized advances_seq advances_log_url_inner)
     (simp add: advances_call)

lemma advances_log_url: "advances s (snd (log_url env u s)) 1"
  unfolding log_url_def
  by (intro advances_synchronized advances_log_url_inner)

lemma advances_check_url: "advances s (snd (check_url env u name s)) 0"
  unfolding check_url_def by (intro advances_call) simp

lemma advances_interrupted: "advances s (snd (interrupted env u s)) 0"
  unfolding interrupted_def by (intro advances_synchronized advances_call) simp

lemma advances_finished: "advances s (snd (finished env s)) 0"
  unfolding finished_def
  by (intro advances_synchronized advances_seq advances_query)
     (auto intro!: advances_seq advances_query simp: advances_refl)

lemma advances_print_status: "advances s (snd (print_status env curtime start_time s)) 0"
  unfolding print_status_def
  by (intro advances_synchronized advances_seq advances_query advances_call) simp_all

lemma advances_abort: "abort env s = Some y \<Longrightarrow> advances s (snd y) 0"
  using abort_retry_result[of env "s\<lparr>num_waited := 0\<rparr>" y]
    advances_trans[OF advances_num_waited[of s 0], of "snd y" 0]
  by (simp add: abort_def)

text \<open>
  One operation: only \<open>checked()\<close> and \<open>log_url()\<close> log whatever happens, and only
  \<open>append_url()\<close> can have an admission refused, at most one.
\<close>

lemma progress_perform:
  assumes "perform env x s = Some s'"
  shows "\<exists>m. m \<le> (if append_url_call x then 1 else 0) \<and>
           progress s s' (if logs_item x then 1 else 0) m"
proof (cases "append_url_call x")
  case True
  then obtain u where "x = OpAppendUrl u" by (cases x) simp_all
  with assms progress_append_url[of s env u] show ?thesis by auto
next
  case False
  with assms have "advances s s' (if logs_item x then 1 else 0)"
    using advances_check_url[of s env] advances_checked[of s env]
      advances_interrupted[of s env] advances_finished[of s env] advances_finish[of s env]
      advances_no_more_threads[of s env] advances_print_status[of s env]
      advances_start_log_output[of s env] advances_log_url[of s env]
      advances_end_log_output[of s env] advances_active_threads[of s env]
      advances_abort[of env s]
    by (cases x) auto
  from advances_progress[OF this] False show ?thesis by auto
qed

lemma progress_run:
  "run env ops s = Some s' \<Longrightarrow>
   \<exists>m. m \<le> length (filter append_url_call ops) \<and>
       progress s s' (int (length (filter logs_item ops))) m"
proof (induction ops arbitrary: s)
  case Nil
  then show ?case by (simp add: progress_def)
next
  case (Cons x ops)
  from Cons.prems obtain s1 where p: "perform env x s = Some s1" and r: "run env ops s1 = Some s'"
    by (auto split: option.splits)
  from progress_perform[OF p] obtain m where
    m: "m \<le> (if append_url_call x then 1 else 0)"
    and pm: "progress s s1 (if logs_item x then 1 else 0) m" by blast
  from Cons.IH[OF r] obtain n where
    n: "n \<le> length (filter append_url_call ops)"
    and pn: "progress s1 s' (int (length (filter logs_item ops))) n" by blast
  from progress_trans[OF pm pn]
  have "progress s s' (int (length (filter logs_item (x # ops)))) (m + n)"
    by (simp split: if_splits)
  moreover from m n have "m + n \<le> length (filter append_url_call (x # ops))"
    by (simp split: if_splits)
  ultimately show ?case by blast
qed

lemma logs_item_count:
  "length (filter logs_item ops) = length (filter checked_call ops) + length (filter log_url_call ops)"
proof (induction ops)
  case Nil
  then show ?case by simp
next
  case (Cons x ops)
  then show ?case by (cases x) simp_all
qed

lemma counter_after_run:
  assumes "run env ops s = Some s'"
  shows "number s' = number s + int (length (filter checked_call ops)) +
           int (length (filter refused (new_events s s'))) + int (length (filter log_url_call ops)) \<and>
         length (filter refused (new_events s s')) \<le> length (filter append_url_call ops)"
  using progress_run[OF assms]
  by (auto simp: progress_def new_events_def logs_item_count)

lemma refused_by_append_url_only:
  assumes "perform env x s = Some s'"
  shows "length (filter refused (new_events s s')) \<le> (if append_url_call x then 1 else 0)"
  using progress_perform[OF assms]
  by (auto simp: progress_def new_events_def split: if_splits)

text \<open>
  C8, as the code has it.  Every call of \<open>_log_url\<close> raises the counter by exactly 1,
  whether the loggers return or raise.  No operation lowers the counter.  After any
  sequence of operations the counter has risen by the number of \<open>checked()\<close> calls,
  plus the number of admissions the cache refused, plus the number of \<open>log_url()\<close>
  calls.  The refused admissions are those of \<open>append_url()\<close> calls: no other
  operation has an admission refused, and one \<open>append_url()\<close> call at most one.
\<close>

theorem logged_counter:
  "number (snd (log_url_inner env u s)) = number s + 1 \<and>
   (perform env x s = Some t \<longrightarrow>
      number s \<le> number t \<and>
      length (filter refused (new_events s t)) \<le> (if append_url_call x then 1 else 0)) \<and>
   (run env ops s = Some s' \<longrightarrow>
      number s' = number s + int (length (filter checked_call ops)) +
        int (length (filter refused (new_events s s'))) +
        int (length (filter log_url_call ops)))"
proof (intro conjI impI)
  from advances_log_url_inner[of s env u]
  show "number (snd (log_url_inner env u s)) = number s + 1"
    by (auto simp: advances_def)
next
  assume "perform env x s = Some t"
  from progress_perform[OF this] show "number s \<le> number t"
    by (auto simp: progress_def split: if_splits)
next
  assume "perform env x s = Some t"
  then show "length (filter refused (new_events s t)) \<le> (if append_url_call x then 1 else 0)"
    by (rule refused_by_append_url_only)
next
  assume "run env ops s = Some s'"
  from counter_after_run[OF this]
  show "number s' = number s + int (length (filter checked_call ops)) +
        int (length (filter refused (new_events s s'))) +
        int (length (filter log_url_call ops))"
    by simp
qed

text \<open>
  The claim as stated leaves out \<open>log_url()\<close>: one call of it raises the counter to 1
  with no \<open>checked()\<close> call and no refused admission.
\<close>

theorem logged_counter_counterexample:
  "run idle_env [OpLogUrl item_B] fresh =
     Some (fresh\<lparr>number := 1,
       trace := [Acquire, LogFilterUrl ''text'' item_B False, LogFilterUrl ''html'' item_B False,
                 LogFilterUrl ''csv'' item_B False, Release]\<rparr>) \<and>
   length (filter checked_call [OpLogUrl item_B]) = 0 \<and>
   length (filter refused [Acquire, LogFilterUrl ''text'' item_B False,
     LogFilterUrl ''html'' item_B False, LogFilterUrl ''csv'' item_B False, Release]) = 0 \<and>
   number (fresh\<lparr>number := 1,
       trace := [Acquire, LogFilterUrl ''text'' item_B False, LogFilterUrl ''html'' item_B False,
                 LogFilterUrl ''csv'' item_B False, Release]\<rparr>) \<noteq> number fresh + 0 + 0"
  by (simp add: log_url_def log_url_inner_def Let_def synchronized_def seq_def call_def emit_def
      do_print_def idle_env_def fresh_def example_config_def item_B_def)

theorem logged_counter_witness:
  "perform dedup_env (OpLogUrl item_B) fresh =
     Some (fresh\<lparr>number := 1,
       trace := [Acquire, LogFilterUrl ''text'' item_B False, LogFilterUrl ''html'' item_B False,
                 LogFilterUrl ''csv'' item_B False, Release]\<rparr>) \<and>
   run dedup_env [OpAppendUrl item_A, OpAppendUrl item_A, OpChecked item_A, OpLogUrl item_B] fresh =
     Some (fresh\<lparr>number := 3,
       trace := [Acquire, IncomingAdd item_A True, Release,
                 Acquire, IncomingAdd item_A False, LogFilterUrl ''text'' item_A True,
                 LogFilterUrl ''html'' item_A True, LogFilterUrl ''csv'' item_A True, Release,
                 Acquire, LogFilterUrl ''text'' item_A True, LogFilterUrl ''html'' item_A True,
                 LogFilterUrl ''csv'' item_A True, CheckedAdd item_A, Release,
                 Acquire, LogFilterUrl ''text'' item_B False, LogFilterUrl ''html'' item_B False,
                 LogFilterUrl ''csv'' item_B False, Release]\<rparr>) \<and>
   (3::int) = number fresh + int 1 + int 1 + int 1"
proof -
  let ?ops = "[OpAppendUrl item_A, OpAppendUrl item_A, OpChecked item_A, OpLogUrl item_B]"
  let ?t = "fresh\<lparr>number := 1,
       trace := [Acquire, LogFilterUrl ''text'' item_B False, LogFilterUrl ''html'' item_B False,
                 LogFilterUrl ''csv'' item_B False, Release]\<rparr>"
  let ?s' = "fresh\<lparr>number := 3,
       trace := [Acquire, IncomingAdd item_A True, Release,
                 Acquire, IncomingAdd item_A False, LogFilterUrl ''text'' item_A True,
                 LogFilterUrl ''html'' item_A True, LogFilterUrl ''csv'' item_A True, Release,
                 Acquire, LogFilterUrl ''text'' item_A True, LogFilterUrl ''html'' item_A True,
                 LogFilterUrl ''csv'' item_A True, CheckedAdd item_A, Release,
                 Acquire, LogFilterUrl ''text'' item_B False, LogFilterUrl ''html'' item_B False,
                 LogFilterUrl ''csv'' item_B False, Release]\<rparr>"
  have one: "perform dedup_env (OpLogUrl item_B) fresh = Some ?t"
    by (simp add: log_url_def log_url_inner_def Let_def synchronized_def seq_def call_def
        emit_def do_print_def dedup_env_def idle_env_def fresh_def example_config_def item_B_def)
  have run: "run dedup_env ?ops fresh = Some ?s'"
    by (simp add: append_url_def checked_def log_url_def log_url_inner_def Let_def
        synchronized_def seq_def query_def call_def emit_def do_print_def dedup_env_def
        idle_env_def fresh_def example_config_def item_A_def item_B_def)
  from logged_counter[of dedup_env item_B fresh "OpLogUrl item_B" ?t ?ops ?s'] one run
  show ?thesis
    by (simp add: fresh_def)
qed

text \<open>
  C2 does not hold of the code.  \<open>finished()\<close> and \<open>print_status()\<close> are synchronized
  methods: the lock is taken first, and the threader and the cache are asked while it
  is held.  With no thread running and nothing queued, the calls made are these.
\<close>

theorem status_queries_under_lock:
  "new_events fresh (snd (finished idle_env fresh)) =
     [Acquire, ThreaderFinished True, IncomingLen 0, Release] \<and>
   new_events fresh (snd (print_status idle_env 5 3 fresh)) =
     [Acquire, PrintStatus, ActiveThreads 0, PrintActive 0, PrintLinks 0, IncomingLen 0,
      PrintTocheck 0, PrintDuration 2, PrintNewline, Release]"
  by (simp add: finished_def print_status_def synchronized_def seq_def query_def call_def
      emit_def new_events_def idle_env_def fresh_def)

end
